theory Spec2Isabelle
  imports Complex_Main "HOL-Library.Product_Lexorder" "HOL-Library.Log_Nat" "HOL-Library.Multiset"
begin

section \<open>Values of the program\<close>

text \<open>
  A colour is a Python 3-tuple of ints.  Tuples compare lexicographically in Python, which
  is the order \<open>HOL-Library.Product_Lexorder\<close> puts on nested pairs.
\<close>

type_synonym color = "int \<times> int \<times> int"

datatype error = ValueError | IndexError | ZeroDivisionError

text \<open>Sequencing of fallible steps: the first exception wins.\<close>

definition bind_err :: "error + 'a \<Rightarrow> ('a \<Rightarrow> error + 'b) \<Rightarrow> error + 'b" where
  "bind_err m f = (case m of Inl e \<Rightarrow> Inl e | Inr v \<Rightarrow> f v)"

text \<open>Python list indexing: a negative index counts from the end, out of range raises.\<close>

definition py_index :: "'a list \<Rightarrow> int \<Rightarrow> error + 'a" where
  "py_index xs i =
     (if 0 \<le> i \<and> i < int (length xs) then Inr (xs ! nat i)
      else if i < 0 \<and> - int (length xs) \<le> i then Inr (xs ! nat (int (length xs) + i))
      else Inl IndexError)"

section \<open>Binary64 arithmetic\<close>

text \<open>
  A Python float is an IEEE-754 binary64 number.  The finite ones are modelled by their
  exact rational value; every operation computes the exact result and rounds it to 53
  significant bits, to nearest, ties to even.  The exponent range is left unbounded:
  overflow and underflow need magnitudes beyond \<open>2^1023\<close> or below \<open>2^-1022\<close>, which
  no computation on 8-bit channels, list lengths and image sizes reaches.  The sign of a
  zero is not kept; the program never observes it.
\<close>

definition pow2 :: "int \<Rightarrow> rat" where
  "pow2 e = (if 0 \<le> e then 2 ^ nat e else 1 / 2 ^ nat (- e))"

text \<open>For \<open>x > 0\<close>, the exponent \<open>e\<close> with \<open>2^e \<le> x < 2^(e+1)\<close>.\<close>

definition binade :: "rat \<Rightarrow> int" where
  "binade x =
     (case quotient_of x of (a, b) \<Rightarrow>
        let e = bitlen a - bitlen b in if pow2 e \<le> x then e else e - 1)"

definition round_half_even :: "rat \<Rightarrow> int" where
  "round_half_even q =
     (let f = \<lfloor>q\<rfloor>; d = q - of_int f
      in if d < 1 / 2 then f else if 1 / 2 < d then f + 1
         else if even f then f else f + 1)"

definition fl :: "rat \<Rightarrow> rat" where
  "fl x =
     (if x = 0 then 0
      else let u = pow2 (binade \<bar>x\<bar> - 52) in of_int (round_half_even (x / u)) * u)"

text \<open>\<open>float(i)\<close>, and the arithmetic operators on two floats.\<close>

definition float_of_int :: "int \<Rightarrow> rat" where
  "float_of_int i = fl (of_int i)"

definition fadd :: "rat \<Rightarrow> rat \<Rightarrow> rat" where
  "fadd a b = fl (a + b)"

definition fsub :: "rat \<Rightarrow> rat \<Rightarrow> rat" where
  "fsub a b = fl (a - b)"

definition fmul :: "rat \<Rightarrow> rat \<Rightarrow> rat" where
  "fmul a b = fl (a * b)"

definition fdiv :: "rat \<Rightarrow> rat \<Rightarrow> error + rat" where
  "fdiv a b = (if b = 0 then Inl ZeroDivisionError else Inr (fl (a / b)))"

text \<open>\<open>a / b\<close> on two ints is the correctly rounded quotient.\<close>

definition int_truediv :: "int \<Rightarrow> int \<Rightarrow> error + rat" where
  "int_truediv a b =
     (if b = 0 then Inl ZeroDivisionError else Inr (fl (of_int a / of_int b)))"

text \<open>\<open>int(f)\<close> truncates towards zero; \<open>math.ceil(f)\<close> rounds up.\<close>

definition py_int :: "rat \<Rightarrow> int" where
  "py_int f = (if 0 \<le> f then \<lfloor>f\<rfloor> else \<lceil>f\<rceil>)"

definition py_ceil :: "rat \<Rightarrow> int" where
  "py_ceil f = \<lceil>f\<rceil>"

text \<open>
  \<open>math.sqrt\<close> is correctly rounded.  \<open>isqrt n\<close> is the integer square root; for a
  float \<open>x > 0\<close> the root lies in the binade \<open>binade x div 2\<close>, and the 53-bit
  significand is the integer root of \<open>x / u^2\<close>, rounded up when \<open>x / u^2\<close> lies above
  the midpoint.  A negative argument is a "math domain error".
\<close>

function isqrt :: "int \<Rightarrow> int" where
  "isqrt n =
     (if n < 2 then max n 0
      else let r = 2 * isqrt (n div 4) in if (r + 1) * (r + 1) \<le> n then r + 1 else r)"
  by pat_completeness auto
termination
  by (relation "measure nat") auto

definition fsqrt :: "rat \<Rightarrow> rat" where
  "fsqrt x =
     (if x \<le> 0 then 0
      else let u = pow2 (binade x div 2 - 52);
               q = x / (u * u);
               m = isqrt \<lfloor>q\<rfloor>;
               h = of_int m + 1 / 2
           in if q < h * h then of_int m * u
              else if h * h < q then of_int (m + 1) * u
              else if even m then of_int m * u else of_int (m + 1) * u)"

definition math_sqrt :: "rat \<Rightarrow> error + rat" where
  "math_sqrt x = (if x < 0 then Inl ValueError else Inr (fsqrt x))"

section \<open>The layout computed by \<open>process_hex_file\<close>\<close>

definition canvas_width :: int where
  "canvas_width = 2048"

definition main_gradient_width :: int where
  "main_gradient_width = 100"

definition gradient_start_y :: int where
  "gradient_start_y = 600"

definition available_gradient_height :: int where
  "available_gradient_height = 2048 - gradient_start_y"

definition gradient_height :: int where
  "gradient_height = available_gradient_height div 2"

definition total_content_width :: int where
  "total_content_width = 2048 - main_gradient_width"

definition num_gradients :: int where
  "num_gradients = 11"

definition gradient_width :: int where
  "gradient_width = total_content_width div (num_gradients + 1)"

definition total_gradient_width :: int where
  "total_gradient_width = gradient_width * (num_gradients + 1)"

definition available_width_for_squares :: int where
  "available_width_for_squares = total_gradient_width"

definition target_square_size :: int where
  "target_square_size = 100"

definition max_cols :: int where
  "max_cols = available_width_for_squares div target_square_size"

text \<open>
  \<open>grid_cols\<close> and \<open>grid_rows\<close> for a palette of \<open>num_colors\<close> colours.  The row count
  goes through a float: \<open>int(math.ceil(num_colors / grid_cols))\<close>.
\<close>

definition grid_cols :: "int \<Rightarrow> int" where
  "grid_cols num_colors =
     (let gc = min max_cols num_colors in if gc \<ge> num_colors then num_colors else gc)"

definition grid_rows :: "int \<Rightarrow> error + int" where
  "grid_rows num_colors =
     (let gc = min max_cols num_colors
      in if gc \<ge> num_colors then Inr 1
         else bind_err (int_truediv num_colors gc) (\<lambda>q. Inr (py_ceil q)))"

definition square_width :: "int \<Rightarrow> int" where
  "square_width num_colors = total_gradient_width div grid_cols num_colors"

definition remaining_width_per_row :: "int \<Rightarrow> int" where
  "remaining_width_per_row num_colors = total_gradient_width mod grid_cols num_colors"

definition square_height :: "int \<Rightarrow> int \<Rightarrow> int" where
  "square_height num_colors rows = min (square_width num_colors) (gradient_start_y div rows)"

definition actual_main_gradient_width :: int where
  "actual_main_gradient_width = 2048 - total_gradient_width"

text \<open>One pasted square: its position, its size and its colour.\<close>

record square =
  sq_x :: int
  sq_y :: int
  sq_w :: int
  sq_h :: int
  sq_color :: color

text \<open>The body of the loop over \<open>enumerate(rgb_colors)\<close>, for the square of index \<open>i\<close>.\<close>

definition place_square :: "int \<Rightarrow> int \<Rightarrow> int \<Rightarrow> color \<Rightarrow> square" where
  "place_square num_colors rows i c =
     (let row = i div grid_cols num_colors;
          col = i mod grid_cols num_colors;
          x = col * square_width num_colors;
          y = row * square_height num_colors rows
      in if col < remaining_width_per_row num_colors
         then \<lparr>sq_x = x + col, sq_y = y, sq_w = square_width num_colors + 1,
               sq_h = square_height num_colors rows, sq_color = c\<rparr>
         else \<lparr>sq_x = x + remaining_width_per_row num_colors, sq_y = y,
               sq_w = square_width num_colors,
               sq_h = square_height num_colors rows, sq_color = c\<rparr>)"

fun draw_grid :: "int \<Rightarrow> int \<Rightarrow> int \<Rightarrow> color list \<Rightarrow> square list" where
  "draw_grid num_colors rows i [] = []"
| "draw_grid num_colors rows i (c # cs) =
     place_square num_colors rows i c # draw_grid num_colors rows (i + 1) cs"

text \<open>The squares pasted for a palette, in the order of the loop.\<close>

definition grid_squares :: "color list \<Rightarrow> error + square list" where
  "grid_squares rgb_colors =
     (let num_colors = int (length rgb_colors)
      in bind_err (grid_rows num_colors)
           (\<lambda>rows. Inr (draw_grid num_colors rows 0 rgb_colors)))"

section \<open>\<open>rgb_distance\<close> and \<open>find_neighbors\<close>\<close>

definition rgb_distance :: "color \<Rightarrow> color \<Rightarrow> error + rat" where
  "rgb_distance color1 color2 =
     (case color1 of (r1, g1, b1) \<Rightarrow> case color2 of (r2, g2, b2) \<Rightarrow>
        math_sqrt (float_of_int ((r1 - r2)\<^sup>2 + (g1 - g2)\<^sup>2 + (b1 - b2)\<^sup>2)))"

text \<open>
  The comprehension that builds \<open>distances\<close>: one pair \<open>(distance, color)\<close> for every
  palette colour that is not equal to the target, in palette order.
\<close>

fun distance_list :: "color \<Rightarrow> color list \<Rightarrow> error + (rat \<times> color) list" where
  "distance_list target_color [] = Inr []"
| "distance_list target_color (c # cs) =
     (if c \<noteq> target_color
      then bind_err (rgb_distance target_color c) (\<lambda>d.
           bind_err (distance_list target_color cs) (\<lambda>ds. Inr ((d, c) # ds)))
      else distance_list target_color cs)"

text \<open>
  \<open>distances.sort()\<close> sorts the pairs themselves, so by distance first and by colour
  second; the order on pairs is total, so the sorted list is \<open>sort\<close> of the list.
\<close>

definition sorted_distances :: "color \<Rightarrow> color list \<Rightarrow> error + (rat \<times> color) list" where
  "sorted_distances target_color colors =
     bind_err (distance_list target_color colors) (\<lambda>distances. Inr (sort distances))"

text \<open>\<open>range(a, b)\<close>.\<close>

definition py_range :: "int \<Rightarrow> int \<Rightarrow> int list" where
  "py_range a b = [a..b - 1]"

text \<open>The selection loop, over the indices still to visit.\<close>

fun select_loop :: "(rat \<times> color) list \<Rightarrow> int list \<Rightarrow> color list \<Rightarrow> error + color list" where
  "select_loop distances [] selected = Inr selected"
| "select_loop distances (i # rest) selected =
     (if i < int (length distances)
      then bind_err (py_index distances i) (\<lambda>p. select_loop distances rest (selected @ [snd p]))
      else select_loop distances rest selected)"

definition find_neighbors :: "color \<Rightarrow> color list \<Rightarrow> int \<Rightarrow> int \<Rightarrow> error + color list" where
  "find_neighbors target_color colors max_neighbors min_distance =
     bind_err (sorted_distances target_color colors) (\<lambda>distances.
       let start_index = min_distance
       in select_loop distances
            (py_range start_index (min (start_index + max_neighbors) (int (length distances))))
            [])"

section \<open>\<open>create_gradient\<close>\<close>

text \<open>
  One channel: \<open>int(c1 + (c2 - c1) * local_pos)\<close>; \<open>interpolate_raw\<close> is the float
  handed to \<open>int\<close>.
\<close>

definition interpolate_raw :: "int \<Rightarrow> int \<Rightarrow> rat \<Rightarrow> rat" where
  "interpolate_raw c1 c2 local_pos =
     fadd (float_of_int c1) (fmul (float_of_int (c2 - c1)) local_pos)"

definition interpolate :: "int \<Rightarrow> int \<Rightarrow> rat \<Rightarrow> int" where
  "interpolate c1 c2 local_pos = py_int (interpolate_raw c1 c2 local_pos)"

text \<open>
  The first half of the body of the two loops, for the pixel in row \<open>y\<close> and column
  \<open>x\<close>: \<open>pos\<close>, \<open>segment_size\<close>, \<open>segment\<close> and \<open>local_pos\<close>.  The result is
  \<open>(segment, local_pos)\<close>.
\<close>

definition gradient_position :: "color list \<Rightarrow> int \<Rightarrow> int \<Rightarrow> bool \<Rightarrow> int \<Rightarrow> int \<Rightarrow> error + int \<times> rat" where
  "gradient_position colors width height vertical y x =
     bind_err (if vertical
               then (if height > 1 then int_truediv y (height - 1) else Inr 0)
               else (if width > 1 then int_truediv x (width - 1) else Inr 0)) (\<lambda>pos.
     bind_err (fdiv 1 (float_of_int (int (length colors) - 1))) (\<lambda>segment_size.
     bind_err (fdiv pos segment_size) (\<lambda>q.
       let segment = min (py_int q) (int (length colors) - 2)
       in bind_err (fdiv (fsub pos (fmul (float_of_int segment) segment_size)) segment_size)
            (\<lambda>local_pos. Inr (segment, local_pos)))))"

text \<open>The second half: the two colours of the segment and the three channels.\<close>

definition gradient_pixel :: "color list \<Rightarrow> int \<Rightarrow> int \<Rightarrow> bool \<Rightarrow> int \<Rightarrow> int \<Rightarrow> error + color" where
  "gradient_pixel colors width height vertical y x =
     bind_err (gradient_position colors width height vertical y x) (\<lambda>(segment, local_pos).
     bind_err (py_index colors segment) (\<lambda>color1.
     bind_err (py_index colors (segment + 1)) (\<lambda>color2.
       Inr (interpolate (fst color1) (fst color2) local_pos,
            interpolate (fst (snd color1)) (fst (snd color2)) local_pos,
            interpolate (snd (snd color1)) (snd (snd color2)) local_pos))))"

text \<open>The loop over \<open>x\<close> within a row, and the loop over the rows; both append to \<open>pixels\<close>.\<close>

fun row_loop :: "color list \<Rightarrow> int \<Rightarrow> int \<Rightarrow> bool \<Rightarrow> int \<Rightarrow> int list \<Rightarrow> color list \<Rightarrow> error + color list" where
  "row_loop colors width height vertical y [] pixels = Inr pixels"
| "row_loop colors width height vertical y (x # xs) pixels =
     bind_err (gradient_pixel colors width height vertical y x) (\<lambda>p.
       row_loop colors width height vertical y xs (pixels @ [p]))"

fun rows_loop :: "color list \<Rightarrow> int \<Rightarrow> int \<Rightarrow> bool \<Rightarrow> int list \<Rightarrow> color list \<Rightarrow> error + color list" where
  "rows_loop colors width height vertical [] pixels = Inr pixels"
| "rows_loop colors width height vertical (y # ys) pixels =
     bind_err (row_loop colors width height vertical y (py_range 0 width) pixels) (\<lambda>pixels'.
       rows_loop colors width height vertical ys pixels')"

text \<open>
  \<open>create_gradient\<close> returns the image; the model returns the buffer handed to
  \<open>putdata\<close>.  \<open>Image.new\<close> rejects a negative width or height.
\<close>

definition create_gradient :: "color list \<Rightarrow> int \<Rightarrow> int \<Rightarrow> bool \<Rightarrow> error + color list" where
  "create_gradient colors width height vertical =
     (if width < 0 \<or> height < 0 then Inl ValueError
      else if length colors = 1
      then bind_err (py_index colors 0) (\<lambda>c. Inr (replicate (nat (width * height)) c))
      else rows_loop colors width height vertical (py_range 0 height) [])"

section \<open>\<open>get_lightest_darkest\<close>\<close>

definition luminance :: "color \<Rightarrow> rat" where
  "luminance color =
     (case color of (r, g, b) \<Rightarrow>
        fadd (fadd (fmul (fl (299 / 1000)) (float_of_int r))
                   (fmul (fl (587 / 1000)) (float_of_int g)))
             (fmul (fl (114 / 1000)) (float_of_int b)))"

text \<open>\<open>sorted(colors, key=luminance)\<close> is stable, as \<open>sort_key\<close> is.\<close>

definition get_lightest_darkest :: "color list \<Rightarrow> error + color \<times> color" where
  "get_lightest_darkest colors =
     (let sorted_colors = sort_key luminance colors
      in bind_err (py_index sorted_colors 0) (\<lambda>darkest.
         bind_err (py_index sorted_colors (- 1)) (\<lambda>lightest. Inr (darkest, lightest))))"

section \<open>\<open>hex_to_rgb\<close> and the palette loader\<close>

text \<open>
  A \<open>char\<close> stands for a code point below 256.  \<open>str.strip\<close> removes the characters for
  which \<open>str.isspace\<close> holds; \<open>int\<close> skips a smaller set, without the separators
  \<open>0x1C\<close> to \<open>0x1F\<close>.
\<close>

definition is_space :: "char \<Rightarrow> bool" where
  "is_space c =
     (let n = (of_char c :: nat)
      in (9 \<le> n \<and> n \<le> 13) \<or> (28 \<le> n \<and> n \<le> 32) \<or> n = 133 \<or> n = 160)"

definition is_int_space :: "char \<Rightarrow> bool" where
  "is_int_space c =
     (let n = (of_char c :: nat)
      in (9 \<le> n \<and> n \<le> 13) \<or> n = 32 \<or> n = 133 \<or> n = 160)"

definition strip :: "string \<Rightarrow> string" where
  "strip s = rev (dropWhile is_space (rev (dropWhile is_space s)))"

definition hex_digit :: "char \<Rightarrow> int option" where
  "hex_digit c =
     (let n = (of_char c :: nat)
      in if 48 \<le> n \<and> n \<le> 57 then Some (int n - 48)
         else if 97 \<le> n \<and> n \<le> 102 then Some (int n - 87)
         else if 65 \<le> n \<and> n \<le> 70 then Some (int n - 55)
         else None)"

text \<open>
  The digits of \<open>int(s, 16)\<close> after the first one: a single underscore may stand between
  two digits.
\<close>

fun hex_digits :: "string \<Rightarrow> int \<Rightarrow> int option" where
  "hex_digits [] acc = Some acc"
| "hex_digits (c # cs) acc =
     (if c = CHR ''_''
      then (case cs of
              [] \<Rightarrow> None
            | d # ds \<Rightarrow> (case hex_digit d of
                           None \<Rightarrow> None
                         | Some v \<Rightarrow> hex_digits ds (16 * acc + v)))
      else (case hex_digit c of
              None \<Rightarrow> None
            | Some v \<Rightarrow> hex_digits cs (16 * acc + v)))"

text \<open>
  \<open>int(s, 16)\<close>: surrounding whitespace, an optional sign, an optional \<open>0x\<close> prefix
  (which may be followed by one underscore), then at least one digit.
\<close>

definition int16 :: "string \<Rightarrow> error + int" where
  "int16 s =
     (let t = rev (dropWhile is_int_space (rev (dropWhile is_int_space s)));
          sign = (case t of c # r \<Rightarrow> if c = CHR ''-'' then - 1 else 1 | [] \<Rightarrow> (1::int));
          u = (case t of c # r \<Rightarrow> if c = CHR ''-'' \<or> c = CHR ''+'' then r else t | [] \<Rightarrow> t);
          v = (case u of
                 c # x # r \<Rightarrow>
                   if c = CHR ''0'' \<and> (x = CHR ''x'' \<or> x = CHR ''X'')
                   then (case r of k # r' \<Rightarrow> if k = CHR ''_'' then r' else r | [] \<Rightarrow> r)
                   else u
               | _ \<Rightarrow> u)
      in case v of
           [] \<Rightarrow> Inl ValueError
         | d # ds \<Rightarrow> (case hex_digit d of
                        None \<Rightarrow> Inl ValueError
                      | Some n \<Rightarrow> (case hex_digits ds n of
                                     None \<Rightarrow> Inl ValueError
                                   | Some m \<Rightarrow> Inr (sign * m))))"

text \<open>The slices \<open>hex_color[i:i+2]\<close> for \<open>i\<close> in \<open>(0, 2, 4)\<close> never raise.\<close>

definition hex_to_rgb :: "string \<Rightarrow> error + color" where
  "hex_to_rgb hex_color =
     bind_err (int16 (take 2 hex_color)) (\<lambda>r.
     bind_err (int16 (take 2 (drop 2 hex_color))) (\<lambda>g.
     bind_err (int16 (take 2 (drop 4 hex_color))) (\<lambda>b. Inr (r, g, b))))"

text \<open>\<open>[line.strip() for line in f if line.strip()]\<close>\<close>

definition read_hex_colors :: "string list \<Rightarrow> string list" where
  "read_hex_colors lines = map strip (filter (\<lambda>line. strip line \<noteq> []) lines)"

text \<open>\<open>[hex_to_rgb(hex_color) for hex_color in hex_colors if len(hex_color) == 6]\<close>\<close>

fun convert_colors :: "string list \<Rightarrow> error + color list" where
  "convert_colors [] = Inr []"
| "convert_colors (hex_color # rest) =
     (if length hex_color = 6
      then bind_err (hex_to_rgb hex_color) (\<lambda>c.
           bind_err (convert_colors rest) (\<lambda>cs. Inr (c # cs)))
      else convert_colors rest)"

definition load_palette :: "string list \<Rightarrow> error + color list" where
  "load_palette lines = convert_colors (read_hex_colors lines)"

section \<open>\<open>process_hex_file\<close> and \<open>main\<close>\<close>

text \<open>
  What is pasted on the canvas without a random draw: the grid of squares, the main
  gradient at \<open>(total_gradient_width, 0)\<close> and the lightest-to-darkest strip at
  \<open>(0, gradient_start_y)\<close>.  The 23 strips that follow are built from draws of the
  \<open>random\<close> module and are not part of the record.  Calls into the imaging library
  other than \<open>Image.new\<close> in \<open>create_gradient\<close> are taken not to raise.
\<close>

record atlas =
  squares :: "square list"
  main_gradient :: "color list"
  first_gradient :: "color list"

definition build_atlas :: "color list \<Rightarrow> error + atlas" where
  "build_atlas rgb_colors =
     bind_err (grid_squares rgb_colors) (\<lambda>sqs.
     bind_err (create_gradient rgb_colors actual_main_gradient_width 2048 True) (\<lambda>mg.
     bind_err (get_lightest_darkest rgb_colors) (\<lambda>(darkest, lightest).
     bind_err (create_gradient [lightest, darkest] gradient_width gradient_height True) (\<lambda>fg.
       Inr \<lparr>squares = sqs, main_gradient = mg, first_gradient = fg\<rparr>))))"

text \<open>
  What a run does to the outside: lines printed and images saved.  An exception that
  leaves a function is the second component of its result.
\<close>

datatype event = Print string | Save string atlas

text \<open>
  \<open>os.path.splitext(os.path.basename(path))[0]\<close> for a name that \<open>glob("*.hex")\<close>
  returned: the name without its last four characters.
\<close>

definition base_name :: "string \<Rightarrow> string" where
  "base_name hex_file_path = take (length hex_file_path - 4) hex_file_path"

definition process_hex_file :: "string \<Rightarrow> string list \<Rightarrow> event list \<times> error option" where
  "process_hex_file hex_file_path lines =
     (case load_palette lines of
        Inl e \<Rightarrow> ([], Some e)
      | Inr rgb_colors \<Rightarrow>
          if rgb_colors = []
          then ([Print (''No valid colors found in '' @ hex_file_path)], None)
          else (case build_atlas rgb_colors of
                  Inl e \<Rightarrow> ([], Some e)
                | Inr a \<Rightarrow>
                    ([Save (base_name hex_file_path @ ''-cta.png'') a,
                      Print (''Created texture atlas: '' @ base_name hex_file_path @ ''-cta.png'')],
                     None)))"

text \<open>The loop of \<open>main\<close> over the files found, each given by its name and its lines.\<close>

fun process_files :: "(string \<times> string list) list \<Rightarrow> event list \<times> error option" where
  "process_files [] = ([], None)"
| "process_files ((hex_file, lines) # rest) =
     (case process_hex_file hex_file lines of
        (evs, Some e) \<Rightarrow> (Print (''Processing '' @ hex_file @ ''...'') # evs, Some e)
      | (evs, None) \<Rightarrow>
          (case process_files rest of
             (evs', r) \<Rightarrow> (Print (''Processing '' @ hex_file @ ''...'') # evs @ evs', r)))"

definition main :: "(string \<times> string list) list \<Rightarrow> event list \<times> error option" where
  "main hex_files =
     (if hex_files = []
      then ([Print ''No .hex files found in the current directory''], None)
      else process_files hex_files)"

section \<open>The gradient as the specification words it\<close>

text \<open>
  The pixel at column \<open>x\<close> and row \<open>y\<close>, following the sentences of the specification:
  a position along the axis (0 when the axis has length 1), segments of size
  \<open>1 / (len(colors) - 1)\<close>, the floor of the quotient clamped to \<open>len(colors) - 2\<close>, the
  position within the segment, and each channel interpolated and truncated.  The
  arithmetic is that of floats, as in the code.
\<close>

definition spec_pos :: "int \<Rightarrow> int \<Rightarrow> rat" where
  "spec_pos i len = (if len = 1 then 0 else fl (of_int i / of_int (len - 1)))"

definition spec_truncate :: "rat \<Rightarrow> int" where
  "spec_truncate v = (if v < 0 then - \<lfloor>- v\<rfloor> else \<lfloor>v\<rfloor>)"

definition spec_channel :: "int \<Rightarrow> int \<Rightarrow> rat \<Rightarrow> int" where
  "spec_channel c1 c2 local_pos =
     spec_truncate (fl (fl (of_int c1) + fl (fl (of_int (c2 - c1)) * local_pos)))"

definition spec_pixel :: "color list \<Rightarrow> int \<Rightarrow> int \<Rightarrow> bool \<Rightarrow> int \<Rightarrow> int \<Rightarrow> color" where
  "spec_pixel colors width height vertical x y =
     (let pos = (if vertical then spec_pos y height else spec_pos x width);
          segment_size = fl (1 / fl (of_int (int (length colors) - 1)));
          segment = min \<lfloor>fl (pos / segment_size)\<rfloor> (int (length colors) - 2);
          local_pos = fl (fl (pos - fl (fl (of_int segment) * segment_size)) / segment_size);
          color1 = colors ! nat segment;
          color2 = colors ! nat (segment + 1)
      in (spec_channel (fst color1) (fst color2) local_pos,
          spec_channel (fst (snd color1)) (fst (snd color2)) local_pos,
          spec_channel (snd (snd color1)) (snd (snd color2)) local_pos))"

text \<open>The five-colour palette of the specification's scenario.\<close>

definition scenario_palette :: "color list" where
  "scenario_palette = [(0, 0, 0), (255, 255, 255), (255, 0, 0), (0, 255, 0), (0, 0, 255)]"


section \<open>Properties of the layout\<close>

lemma total_gradient_width_val: "total_gradient_width = 1944"
  by (simp add: total_gradient_width_def gradient_width_def total_content_width_def
      num_gradients_def main_gradient_width_def)

lemma max_cols_val: "max_cols = 19"
  by (simp add: max_cols_def available_width_for_squares_def total_gradient_width_val
      target_square_size_def)

lemma grid_cols_pos: "1 \<le> n \<Longrightarrow> 1 \<le> grid_cols n"
  by (simp add: grid_cols_def max_cols_val Let_def)

lemma grid_rows_ok: "1 \<le> n \<Longrightarrow> \<exists>r. grid_rows n = Inr r"
  by (simp add: grid_rows_def max_cols_val Let_def int_truediv_def bind_err_def)

lemma length_draw_grid: "length (draw_grid n rows k cs) = length cs"
  by (induction cs arbitrary: k) simp_all

lemma nth_draw_grid:
  "i < length cs \<Longrightarrow> draw_grid n rows k cs ! i = place_square n rows (k + int i) (cs ! i)"
proof (induction cs arbitrary: k i)
  case Nil
  then show ?case by simp
next
  case (Cons c cs)
  show ?case
  proof (cases i)
    case 0
    then show ?thesis by simp
  next
    case (Suc j)
    with Cons.prems have "j < length cs" by simp
    from Cons.IH [OF this, of "k + 1"] Suc show ?thesis by (simp add: add.assoc)
  qed
qed

lemma place_square_w:
  "sq_w (place_square n rows i c) =
     (if i mod grid_cols n < total_gradient_width mod grid_cols n
      then total_gradient_width div grid_cols n + 1 else total_gradient_width div grid_cols n)"
  by (simp add: place_square_def Let_def square_width_def remaining_width_per_row_def)

lemma place_square_x:
  "sq_x (place_square n rows i c) =
     (i mod grid_cols n) * (total_gradient_width div grid_cols n)
       + min (i mod grid_cols n) (total_gradient_width mod grid_cols n)"
  by (simp add: place_square_def Let_def square_width_def remaining_width_per_row_def)

lemma mod_succ_col:
  fixes i m :: int
  assumes "0 < m" "(i + 1) mod m \<noteq> 0"
  shows "(i + 1) mod m = i mod m + 1"
proof -
  have b: "0 \<le> i mod m" "i mod m < m" using assms(1) by simp_all
  have e: "(i + 1) mod m = (i mod m + 1) mod m" by (simp add: mod_add_left_eq)
  show ?thesis
  proof (cases "i mod m + 1 < m")
    case True
    with b have "(i mod m + 1) mod m = i mod m + 1" by (intro mod_pos_pos_trivial) simp_all
    with e show ?thesis by simp
  next
    case False
    with b have "i mod m + 1 = m" by simp
    with e assms(2) show ?thesis by simp
  qed
qed

lemma sum_col_widths:
  fixes a r :: int
  shows "0 \<le> r \<Longrightarrow> r \<le> int m \<Longrightarrow> (\<Sum>c<m. if int c < r then a + 1 else a) = int m * a + r"
proof (induction m arbitrary: r)
  case 0
  then show ?case by simp
next
  case (Suc m)
  let ?f = "\<lambda>c. if int c < r then a + 1 else a"
  have step: "(\<Sum>c<Suc m. ?f c) = (\<Sum>c<m. ?f c) + ?f m" by simp
  show ?case
  proof (cases "r \<le> int m")
    case True
    then have "?f m = a" by simp
    with Suc.IH [OF Suc.prems(1) True] step
    have "(\<Sum>c<Suc m. ?f c) = int m * a + r + a" by (simp only:)
    also have "\<dots> = int (Suc m) * a + r" by (simp add: algebra_simps)
    finally show ?thesis .
  next
    case False
    with Suc.prems have r: "r = int m + 1" by simp
    have "(\<Sum>c<m. ?f c) = (\<Sum>c<m. a + 1)"
      by (rule sum.cong) (simp_all add: r)
    also have "\<dots> = int m * (a + 1)" by simp
    finally have "(\<Sum>c<Suc m. ?f c) = int m * (a + 1) + (a + 1)"
      using step by (simp add: r)
    also have "\<dots> = int (Suc m) * a + r" by (simp add: r algebra_simps)
    finally show ?thesis .
  qed
qed


text \<open>
  C1. For a palette of at least one colour the grid is drawn without error, one square per
  colour, and every row tiles \<open>total_gradient_width\<close>: a square in one of the first
  \<open>total_gradient_width mod grid_cols\<close> columns is \<open>square_width + 1\<close> wide and any
  other is \<open>square_width\<close> wide; the square in column 0 starts at x = 0; every other
  square starts where its left neighbour ends; the square in the last column ends at
  \<open>total_gradient_width\<close>; and the widths of the squares of a full row add up to
  \<open>total_gradient_width\<close>.
\<close>

theorem grid_rows_tile_exactly:
  assumes ne: "rgb_colors \<noteq> []"
  shows "\<exists>sqs. grid_squares rgb_colors = Inr sqs \<and> length sqs = length rgb_colors \<and>
    (\<forall>i<length sqs. sq_w (sqs ! i) =
       (if int i mod grid_cols (int (length rgb_colors))
             < total_gradient_width mod grid_cols (int (length rgb_colors))
        then square_width (int (length rgb_colors)) + 1
        else square_width (int (length rgb_colors)))) \<and>
    (\<forall>i<length sqs. int i mod grid_cols (int (length rgb_colors)) = 0 \<longrightarrow> sq_x (sqs ! i) = 0) \<and>
    (\<forall>i. Suc i < length sqs \<and> int (Suc i) mod grid_cols (int (length rgb_colors)) \<noteq> 0 \<longrightarrow>
       sq_x (sqs ! Suc i) = sq_x (sqs ! i) + sq_w (sqs ! i)) \<and>
    (\<forall>i<length sqs. int i mod grid_cols (int (length rgb_colors))
         = grid_cols (int (length rgb_colors)) - 1 \<longrightarrow>
       sq_x (sqs ! i) + sq_w (sqs ! i) = total_gradient_width) \<and>
    (\<forall>r. (r + 1) * nat (grid_cols (int (length rgb_colors))) \<le> length sqs \<longrightarrow>
       (\<Sum>c<nat (grid_cols (int (length rgb_colors))).
          sq_w (sqs ! (r * nat (grid_cols (int (length rgb_colors))) + c)))
         = total_gradient_width)"
proof -
  let ?n = "int (length rgb_colors)"
  let ?m = "grid_cols ?n"
  let ?w = "square_width ?n"
  let ?rm = "total_gradient_width mod ?m"
  from ne have n1: "1 \<le> ?n" by (cases rgb_colors) simp_all
  then have m1: "1 \<le> ?m" by (rule grid_cols_pos)
  have rm0: "0 \<le> ?rm" and rmm: "?rm < ?m" using m1 by simp_all
  have split: "?m * ?w + ?rm = total_gradient_width" by (simp add: square_width_def)
  from grid_rows_ok [OF n1] obtain rows where rows: "grid_rows ?n = Inr rows" ..
  define sqs where "sqs = draw_grid ?n rows 0 rgb_colors"
  have gs: "grid_squares rgb_colors = Inr sqs"
    by (simp add: grid_squares_def Let_def bind_err_def rows sqs_def)
  have len: "length sqs = length rgb_colors" by (simp add: sqs_def length_draw_grid)
  have nth: "sqs ! i = place_square ?n rows (int i) (rgb_colors ! i)" if "i < length sqs" for i
    using that by (simp add: sqs_def nth_draw_grid length_draw_grid)
  have W: "sq_w (sqs ! i) = (if int i mod ?m < ?rm then ?w + 1 else ?w)" if "i < length sqs" for i
    by (simp add: nth [OF that] place_square_w square_width_def)
  have X: "sq_x (sqs ! i) = (int i mod ?m) * ?w + min (int i mod ?m) ?rm" if "i < length sqs" for i
    by (simp add: nth [OF that] place_square_x square_width_def)
  have c1: "\<forall>i<length sqs. sq_w (sqs ! i) = (if int i mod ?m < ?rm then ?w + 1 else ?w)"
    using W by simp
  have c2: "\<forall>i<length sqs. int i mod ?m = 0 \<longrightarrow> sq_x (sqs ! i) = 0"
    using X rm0 by simp
  have c3: "\<forall>i. Suc i < length sqs \<and> int (Suc i) mod ?m \<noteq> 0 \<longrightarrow>
       sq_x (sqs ! Suc i) = sq_x (sqs ! i) + sq_w (sqs ! i)"
  proof (intro allI impI)
    fix i assume a: "Suc i < length sqs \<and> int (Suc i) mod ?m \<noteq> 0"
    then have i: "i < length sqs" and si: "Suc i < length sqs" by simp_all
    from a m1 mod_succ_col [of ?m "int i"] have col: "int (Suc i) mod ?m = int i mod ?m + 1"
      by (simp add: add.commute)
    show "sq_x (sqs ! Suc i) = sq_x (sqs ! i) + sq_w (sqs ! i)"
      unfolding X [OF si] X [OF i] W [OF i] col by (simp add: algebra_simps min_def)
  qed
  have c4: "\<forall>i<length sqs. int i mod ?m = ?m - 1 \<longrightarrow> sq_x (sqs ! i) + sq_w (sqs ! i) = total_gradient_width"
  proof (intro allI impI)
    fix i assume i: "i < length sqs" and col: "int i mod ?m = ?m - 1"
    from rmm have mn: "min (?m - 1) ?rm = ?rm" and nl: "\<not> ?m - 1 < ?rm" by linarith+
    have "sq_x (sqs ! i) + sq_w (sqs ! i) = (?m - 1) * ?w + ?rm + ?w"
      unfolding X [OF i] W [OF i] col mn using nl by (simp only: if_False)
    also have "\<dots> = ?m * ?w + ?rm" by (simp add: algebra_simps)
    finally show "sq_x (sqs ! i) + sq_w (sqs ! i) = total_gradient_width"
      by (simp only: split)
  qed
  have c5: "\<forall>r. (r + 1) * nat ?m \<le> length sqs \<longrightarrow>
       (\<Sum>c<nat ?m. sq_w (sqs ! (r * nat ?m + c))) = total_gradient_width"
  proof (intro allI impI)
    fix r assume full: "(r + 1) * nat ?m \<le> length sqs"
    have "(\<Sum>c<nat ?m. sq_w (sqs ! (r * nat ?m + c))) = (\<Sum>c<nat ?m. if int c < ?rm then ?w + 1 else ?w)"
    proof (rule sum.cong [OF refl])
      fix c assume "c \<in> {..<nat ?m}"
      then have c: "c < nat ?m" by simp
      with full have i: "r * nat ?m + c < length sqs" by (simp add: algebra_simps)
      have "int (r * nat ?m + c) = int c + int r * ?m" using m1 by simp
      then have "int (r * nat ?m + c) mod ?m = int c mod ?m" by (simp only: mod_mult_self1)
      also have "\<dots> = int c" using c by simp
      finally show "sq_w (sqs ! (r * nat ?m + c)) = (if int c < ?rm then ?w + 1 else ?w)"
        by (simp add: W [OF i])
    qed
    also have "\<dots> = int (nat ?m) * ?w + ?rm"
    proof (rule sum_col_widths [OF rm0])
      have "int (nat ?m) = ?m" using m1 by simp
      with rmm show "?rm \<le> int (nat ?m)" by linarith
    qed
    also have "\<dots> = total_gradient_width" using m1 split by simp
    finally show "(\<Sum>c<nat ?m. sq_w (sqs ! (r * nat ?m + c))) = total_gradient_width" .
  qed
  show ?thesis
  proof (intro exI conjI)
    show "grid_squares rgb_colors = Inr sqs" by (rule gs)
  qed (rule len c1 c2 c3 c4 c5)+
qed

theorem grid_rows_tile_exactly_witness:
  "scenario_palette \<noteq> [] \<and>
   (\<exists>sqs. grid_squares scenario_palette = Inr sqs \<and> length sqs = length scenario_palette \<and>
    (\<forall>i<length sqs. sq_w (sqs ! i) =
       (if int i mod grid_cols (int (length scenario_palette))
             < total_gradient_width mod grid_cols (int (length scenario_palette))
        then square_width (int (length scenario_palette)) + 1
        else square_width (int (length scenario_palette)))) \<and>
    (\<forall>i<length sqs. int i mod grid_cols (int (length scenario_palette)) = 0 \<longrightarrow> sq_x (sqs ! i) = 0) \<and>
    (\<forall>i. Suc i < length sqs \<and> int (Suc i) mod grid_cols (int (length scenario_palette)) \<noteq> 0 \<longrightarrow>
       sq_x (sqs ! Suc i) = sq_x (sqs ! i) + sq_w (sqs ! i)) \<and>
    (\<forall>i<length sqs. int i mod grid_cols (int (length scenario_palette))
         = grid_cols (int (length scenario_palette)) - 1 \<longrightarrow>
       sq_x (sqs ! i) + sq_w (sqs ! i) = total_gradient_width) \<and>
    (\<forall>r. (r + 1) * nat (grid_cols (int (length scenario_palette))) \<le> length sqs \<longrightarrow>
       (\<Sum>c<nat (grid_cols (int (length scenario_palette))).
          sq_w (sqs ! (r * nat (grid_cols (int (length scenario_palette))) + c)))
         = total_gradient_width))"
proof -
  have ne: "scenario_palette \<noteq> []" by (simp add: scenario_palette_def)
  from ne grid_rows_tile_exactly [OF ne] show ?thesis by (rule conjI)
qed

text \<open>
  C3. The constant \<open>main_gradient_width = 100\<close> and \<open>total_gradient_width\<close> do not add
  up to the canvas width: \<open>gradient_width\<close> is \<open>1948 div 12 = 162\<close>, so
  \<open>total_gradient_width = 1944\<close> and four pixels are left over.
\<close>

theorem main_gradient_width_sum_counterexample:
  "main_gradient_width + total_gradient_width \<noteq> canvas_width"
  by (simp add: total_gradient_width_val main_gradient_width_def canvas_width_def)

text \<open>
  C3, amended. The main gradient is drawn \<open>actual_main_gradient_width\<close> wide, and that
  width plus \<open>total_gradient_width\<close> is the canvas width; it is 104, four more than the
  constant \<open>main_gradient_width\<close>, whose sum with \<open>total_gradient_width\<close> is 2044.
\<close>

theorem actual_main_gradient_width_sum:
  "actual_main_gradient_width + total_gradient_width = canvas_width \<and>
   actual_main_gradient_width = 104 \<and>
   main_gradient_width + total_gradient_width = 2044"
  by (simp add: actual_main_gradient_width_def total_gradient_width_val
      main_gradient_width_def canvas_width_def)

section \<open>Properties of the rounding\<close>

lemma pow2_powi: "pow2 e = 2 powi e"
  by (simp add: pow2_def power_int_def inverse_eq_divide power_one_over)

lemma pow2_pos: "0 < pow2 e"
  by (simp add: pow2_powi)

lemma pow2_add: "pow2 (a + b) = pow2 a * pow2 b"
  by (simp add: pow2_powi power_int_add)

lemma pow2_diff: "pow2 (a - b) = pow2 a / pow2 b"
  by (simp add: pow2_powi power_int_diff)

lemma pow2_nat: "pow2 (int n) = 2 ^ n"
  by (simp add: pow2_powi)

lemma pow2_neg_nat: "pow2 (- int n) = 1 / 2 ^ n"
  by (simp add: pow2_def)

lemma bitlen_rat_bounds:
  assumes "0 < a"
  shows "pow2 (bitlen a - 1) \<le> of_int a" "(of_int a :: rat) < pow2 (bitlen a)"
proof -
  from assms have b1: "1 \<le> bitlen a" by (simp add: bitlen_alt_def)
  from bitlen_bounds [OF assms] have lo: "2 ^ nat (bitlen a - 1) \<le> a" and hi: "a < 2 ^ nat (bitlen a)"
    by simp_all
  from lo have "(of_int (2 ^ nat (bitlen a - 1)) :: rat) \<le> of_int a" by (simp only: of_int_le_iff)
  moreover have "pow2 (bitlen a - 1) = 2 ^ nat (bitlen a - 1)" using b1 by (simp add: pow2_def)
  ultimately show "pow2 (bitlen a - 1) \<le> of_int a" by simp
  from hi have "(of_int a :: rat) < of_int (2 ^ nat (bitlen a))" by (simp only: of_int_less_iff)
  moreover have "pow2 (bitlen a) = 2 ^ nat (bitlen a)" using b1 by (simp add: pow2_def)
  ultimately show "(of_int a :: rat) < pow2 (bitlen a)" by simp
qed

lemma binade_bounds:
  assumes "0 < x"
  shows "pow2 (binade x) \<le> x" "x < pow2 (binade x + 1)"
proof -
  obtain a b where q: "quotient_of x = (a, b)" by (cases "quotient_of x")
  then have b: "0 < b" by (rule quotient_of_denom_pos)
  from q have x: "x = of_int a / of_int b" by (rule quotient_of_div)
  with assms b have a: "0 < a" by (simp add: zero_less_divide_iff)
  let ?e = "bitlen a - bitlen b"
  have bb: "0 < (of_int b :: rat)" using b by simp
  have lower: "pow2 (?e - 1) \<le> x"
  proof -
    have "pow2 (?e - 1) = pow2 (bitlen a - 1) / pow2 (bitlen b)"
      by (simp add: pow2_diff [symmetric] algebra_simps)
    also have "\<dots> \<le> of_int a / pow2 (bitlen b)"
      using bitlen_rat_bounds(1) [OF a] pow2_pos [of "bitlen b"] by (simp add: divide_right_mono)
    also have "\<dots> \<le> of_int a / of_int b"
      using bitlen_rat_bounds(2) [OF b] a bb by (intro divide_left_mono) (simp_all add: less_imp_le pow2_pos)
    finally show ?thesis by (simp add: x)
  qed
  have upper: "x < pow2 (?e + 1)"
  proof -
    have "x = of_int a / of_int b" by (rule x)
    also have "\<dots> < pow2 (bitlen a) / of_int b"
      using bitlen_rat_bounds(2) [OF a] bb by (simp add: divide_strict_right_mono)
    also have "\<dots> \<le> pow2 (bitlen a) / pow2 (bitlen b - 1)"
      using bitlen_rat_bounds(1) [OF b] pow2_pos [of "bitlen b - 1"] pow2_pos [of "bitlen a"]
      by (intro divide_left_mono) (simp_all add: less_imp_le)
    also have "\<dots> = pow2 (?e + 1)"
      by (simp add: pow2_diff [symmetric] algebra_simps)
    finally show ?thesis .
  qed
  have bin: "binade x = (if pow2 ?e \<le> x then ?e else ?e - 1)"
    by (simp add: binade_def q Let_def)
  show "pow2 (binade x) \<le> x" using lower by (simp add: bin)
  show "x < pow2 (binade x + 1)" using upper by (auto simp: bin not_le)
qed

lemma round_half_even_err: "\<bar>of_int (round_half_even q) - q\<bar> \<le> 1 / 2"
proof -
  have "of_int \<lfloor>q\<rfloor> \<le> q" "q < of_int \<lfloor>q\<rfloor> + 1" by linarith+
  then show ?thesis by (auto simp: round_half_even_def Let_def abs_le_iff)
qed

lemma round_half_even_nonneg: "0 \<le> q \<Longrightarrow> 0 \<le> round_half_even q"
  by (simp add: round_half_even_def Let_def)

lemma round_half_even_pos: "1 \<le> q \<Longrightarrow> 1 \<le> round_half_even q"
proof -
  assume "1 \<le> q"
  then have "1 \<le> \<lfloor>q\<rfloor>" by (simp add: le_floor_iff)
  then show ?thesis by (simp add: round_half_even_def Let_def)
qed

lemma fl_nonneg: "0 \<le> x \<Longrightarrow> 0 \<le> fl x"
  by (simp add: fl_def Let_def round_half_even_nonneg pow2_pos less_imp_le)

lemma fl_pos:
  assumes "0 < x"
  shows "0 < fl x"
proof -
  let ?u = "pow2 (binade \<bar>x\<bar> - 52)"
  have u: "0 < ?u" by (rule pow2_pos)
  from assms have ax: "\<bar>x\<bar> = x" by simp
  have "?u \<le> pow2 (binade x)"
    by (simp add: ax pow2_powi power_int_increasing)
  also have "\<dots> \<le> x" by (rule binade_bounds(1) [OF assms])
  finally have "1 \<le> x / ?u" using u by (simp add: pos_le_divide_eq)
  then have "1 \<le> round_half_even (x / ?u)" by (rule round_half_even_pos)
  then have "0 < (of_int (round_half_even (x / ?u)) :: rat)" by simp
  with u assms show ?thesis by (simp add: fl_def Let_def)
qed

lemma fl_err: "\<bar>fl x - x\<bar> \<le> \<bar>x\<bar> / 2 ^ 53"
proof (cases "x = 0")
  case True
  then show ?thesis by (simp add: fl_def)
next
  case False
  let ?u = "pow2 (binade \<bar>x\<bar> - 52)"
  let ?r = "of_int (round_half_even (x / ?u)) :: rat"
  have u: "0 < ?u" by (rule pow2_pos)
  from False have ax: "0 < \<bar>x\<bar>" by simp
  have "fl x - x = (?r - x / ?u) * ?u" using u False by (simp add: fl_def Let_def field_simps)
  then have "\<bar>fl x - x\<bar> = \<bar>?r - x / ?u\<bar> * ?u" using u by (simp add: abs_mult)
  also have "\<dots> \<le> 1 / 2 * ?u"
    using round_half_even_err [of "x / ?u"] u by (intro mult_right_mono) simp_all
  also have "\<dots> = pow2 (binade \<bar>x\<bar>) / 2 ^ 53"
  proof -
    have "pow2 (binade \<bar>x\<bar> - 52) = pow2 (binade \<bar>x\<bar>) / pow2 52" by (rule pow2_diff)
    then show ?thesis by (simp add: pow2_def)
  qed
  also have "\<dots> \<le> \<bar>x\<bar> / 2 ^ 53"
    using binade_bounds(1) [OF ax] by (simp add: divide_right_mono)
  finally show ?thesis .
qed

lemma float_of_int_nonneg: "0 \<le> i \<Longrightarrow> 0 \<le> float_of_int i"
  by (simp add: float_of_int_def fl_nonneg)

text \<open>
  An integer below \<open>2^53\<close> in magnitude is a float; a number whose binade and rounded
  significand are known rounds to that significand.
\<close>

lemma round_half_even_of_int: "round_half_even (of_int z) = z"
  by (simp add: round_half_even_def)

lemma fl_of_int:
  assumes "\<bar>n\<bar> < 2 ^ 53"
  shows "fl (of_int n) = of_int n"
proof (cases "n = 0")
  case True
  then show ?thesis by (simp add: fl_def)
next
  case False
  let ?x = "of_int n :: rat"
  let ?b = "binade \<bar>?x\<bar>"
  from False have ax: "0 < \<bar>?x\<bar>" by simp
  have p53: "pow2 53 = 2 ^ 53" by (simp add: pow2_def)
  have "pow2 ?b \<le> \<bar>?x\<bar>" by (rule binade_bounds(1) [OF ax])
  also have "\<bar>?x\<bar> < 2 ^ 53"
  proof -
    from assms have "(of_int \<bar>n\<bar> :: rat) < of_int (2 ^ 53)" by (simp only: of_int_less_iff)
    then show ?thesis by simp
  qed
  finally have lt: "pow2 ?b < pow2 53" by (simp only: p53)
  have b: "?b \<le> 52"
  proof (rule ccontr)
    assume "\<not> ?b \<le> 52"
    then have "53 \<le> ?b" by simp
    then have "(2::rat) powi 53 \<le> 2 powi ?b" by (intro power_int_increasing) simp_all
    then have "pow2 53 \<le> pow2 ?b" by (simp only: pow2_powi)
    with lt show False by simp
  qed
  define m where "m = nat (52 - ?b)"
  from b have e: "?b - 52 = - int m" by (simp add: m_def)
  have u: "pow2 (?b - 52) = 1 / 2 ^ m" unfolding e by (rule pow2_neg_nat)
  have "?x / pow2 (?b - 52) = of_int (n * 2 ^ m)" by (simp add: u)
  then have "round_half_even (?x / pow2 (?b - 52)) = n * 2 ^ m"
    by (simp only: round_half_even_of_int)
  then show ?thesis using False by (simp add: fl_def Let_def u)
qed

lemma fl_near:
  assumes "\<bar>x\<bar> \<le> b"
  shows "x - b / 9007199254740992 \<le> fl x" and "fl x \<le> x + b / 9007199254740992"
proof -
  have "\<bar>fl x - x\<bar> \<le> \<bar>x\<bar> / 2 ^ 53" by (rule fl_err)
  also have "\<dots> \<le> b / 2 ^ 53" using assms by (simp add: divide_right_mono)
  finally have e: "\<bar>fl x - x\<bar> \<le> b / 9007199254740992" by simp
  from e show "x - b / 9007199254740992 \<le> fl x" by linarith
  from e show "fl x \<le> x + b / 9007199254740992" by linarith
qed

lemma round_half_even_unique:
  assumes "\<bar>of_int m - r\<bar> < 1 / 2"
  shows "round_half_even r = m"
proof (cases "of_int m \<le> r")
  case True
  with assms have "r < of_int m + 1" by linarith
  with True have f: "\<lfloor>r\<rfloor> = m" by (simp add: floor_unique)
  from assms True have "r - of_int m < 1 / 2" by linarith
  then show ?thesis by (simp add: round_half_even_def Let_def f)
next
  case False
  with assms have "of_int (m - 1) \<le> r" and "r < of_int (m - 1) + 1" by simp_all
  then have f: "\<lfloor>r\<rfloor> = m - 1" by (rule floor_unique)
  from assms False have "1 / 2 < r - of_int (m - 1)" by simp
  then show ?thesis by (simp add: round_half_even_def Let_def f)
qed

lemma pow2_mono: "a \<le> b \<Longrightarrow> pow2 a \<le> pow2 b"
  unfolding pow2_powi by (rule power_int_increasing) simp_all

lemma binade_eq:
  assumes "pow2 e \<le> x" and "x < pow2 (e + 1)"
  shows "binade x = e"
proof -
  from assms(1) pow2_pos [of e] have x: "0 < x" by linarith
  note b = binade_bounds [OF x]
  have "\<not> binade x < e"
  proof
    assume "binade x < e"
    then have "pow2 (binade x + 1) \<le> pow2 e" by (intro pow2_mono) simp
    with b(2) assms(1) show False by linarith
  qed
  moreover have "\<not> e < binade x"
  proof
    assume "e < binade x"
    then have "pow2 (e + 1) \<le> pow2 (binade x)" by (intro pow2_mono) simp
    with b(1) assms(2) show False by linarith
  qed
  ultimately show ?thesis by linarith
qed

lemma fl_eval:
  assumes "pow2 e \<le> \<bar>x\<bar>" and "\<bar>x\<bar> < pow2 (e + 1)"
    and "\<bar>of_int m - x / pow2 (e - 52)\<bar> < 1 / 2"
  shows "fl x = of_int m * pow2 (e - 52)"
proof -
  from assms(1) pow2_pos [of e] have "x \<noteq> 0" by auto
  moreover have "binade \<bar>x\<bar> = e" by (rule binade_eq [OF assms(1,2)])
  moreover have "round_half_even (x / pow2 (e - 52)) = m"
    by (rule round_half_even_unique [OF assms(3)])
  ultimately show ?thesis by (simp add: fl_def Let_def)
qed

lemma fl_zero: "fl 0 = 0"
  by (simp add: fl_def)

lemma fl_one: "fl 1 = 1"
  using fl_of_int [of 1] by simp

section \<open>Properties of \<open>find_neighbors\<close>\<close>

lemma rgb_distance_ok: "rgb_distance c1 c2 = Inr (fsqrt (float_of_int
    ((fst c1 - fst c2)\<^sup>2 + (fst (snd c1) - fst (snd c2))\<^sup>2 + (snd (snd c1) - snd (snd c2))\<^sup>2)))"
proof -
  have "0 \<le> float_of_int ((fst c1 - fst c2)\<^sup>2 + (fst (snd c1) - fst (snd c2))\<^sup>2
      + (snd (snd c1) - snd (snd c2))\<^sup>2)"
    by (rule float_of_int_nonneg) simp
  then show ?thesis
    by (simp add: rgb_distance_def math_sqrt_def split_beta not_less [symmetric])
qed

lemma distance_list_ok:
  "\<exists>ds. distance_list t cs = Inr ds \<and> map snd ds = filter (\<lambda>c. c \<noteq> t) cs
     \<and> (\<forall>p\<in>set ds. rgb_distance t (snd p) = Inr (fst p))"
proof (induction cs)
  case Nil
  then show ?case by simp
next
  case (Cons c cs)
  then obtain ds where ds: "distance_list t cs = Inr ds" "map snd ds = filter (\<lambda>c. c \<noteq> t) cs"
    "\<forall>p\<in>set ds. rgb_distance t (snd p) = Inr (fst p)" by blast
  obtain d where d: "rgb_distance t c = Inr d" using rgb_distance_ok by blast
  show ?case
  proof (cases "c = t")
    case True
    with ds show ?thesis by simp
  next
    case False
    with ds d show ?thesis by (simp add: bind_err_def)
  qed
qed

lemma select_loop_in_range:
  "\<forall>i\<in>set idx. 0 \<le> i \<and> i < int (length ds) \<Longrightarrow>
   select_loop ds idx sel = Inr (sel @ map (\<lambda>i. snd (ds ! nat i)) idx)"
proof (induction idx arbitrary: sel)
  case Nil
  then show ?case by simp
next
  case (Cons i idx)
  then have i: "0 \<le> i" "i < int (length ds)" by simp_all
  then have "py_index ds i = Inr (ds ! nat i)" by (simp add: py_index_def)
  with Cons i show ?case by (simp add: bind_err_def)
qed

lemma sorted_distances_ok:
  "\<exists>ds0. distance_list t cs = Inr ds0 \<and> sorted_distances t cs = Inr (sort ds0)
     \<and> map snd ds0 = filter (\<lambda>c. c \<noteq> t) cs
     \<and> (\<forall>p\<in>set ds0. rgb_distance t (snd p) = Inr (fst p))"
  using distance_list_ok [of t cs] by (auto simp: sorted_distances_def bind_err_def)

lemma find_neighbors_eq:
  assumes "0 \<le> min_distance" and "sorted_distances t cs = Inr ds"
  shows "find_neighbors t cs max_neighbors min_distance =
     Inr (map (\<lambda>i. snd (ds ! nat i))
            [min_distance..min (min_distance + max_neighbors) (int (length ds)) - 1])"
proof -
  have "\<forall>i\<in>set [min_distance..min (min_distance + max_neighbors) (int (length ds)) - 1].
          0 \<le> i \<and> i < int (length ds)"
    using assms(1) by auto
  from select_loop_in_range [OF this, of "[]"] assms(2) show ?thesis
    by (simp add: find_neighbors_def bind_err_def py_range_def Let_def)
qed

text \<open>
  C5. For \<open>max_neighbors \<ge> 0\<close> and \<open>min_distance \<ge> 0\<close>, \<open>find_neighbors\<close> returns a
  list; the target colour is not in it; it has at most \<open>max_neighbors\<close> elements; and it
  is empty when fewer than \<open>min_distance\<close> palette colours differ from the target.
\<close>

theorem find_neighbors_bounds:
  assumes mx: "0 \<le> max_neighbors" and mn: "0 \<le> min_distance"
  shows "\<exists>selected. find_neighbors target_color colors max_neighbors min_distance = Inr selected
     \<and> target_color \<notin> set selected
     \<and> int (length selected) \<le> max_neighbors
     \<and> (int (length (filter (\<lambda>c. c \<noteq> target_color) colors)) < min_distance
          \<longrightarrow> selected = [])"
proof -
  from sorted_distances_ok [of target_color colors] obtain ds0 where
    sd: "sorted_distances target_color colors = Inr (sort ds0)" and
    cand: "map snd ds0 = filter (\<lambda>c. c \<noteq> target_color) colors" by blast
  let ?ds = "sort ds0"
  let ?k = "min (min_distance + max_neighbors) (int (length ?ds))"
  let ?sel = "map (\<lambda>i. snd (?ds ! nat i)) [min_distance..?k - 1]"
  have fn: "find_neighbors target_color colors max_neighbors min_distance = Inr ?sel"
    by (rule find_neighbors_eq [OF mn sd])
  have len_ds: "length ?ds = length (filter (\<lambda>c. c \<noteq> target_color) colors)"
    using cand by (metis length_map length_sort)
  have "snd ` set ?ds = set (filter (\<lambda>c. c \<noteq> target_color) colors)"
    using cand by (metis set_map set_sort)
  then have no_target: "target_color \<notin> snd ` set ?ds" by simp
  have "set ?sel \<subseteq> snd ` set ?ds"
  proof
    fix c assume "c \<in> set ?sel"
    then obtain i where lo: "min_distance \<le> i" and hi: "i \<le> ?k - 1"
      and c: "c = snd (?ds ! nat i)"
      by auto
    from lo mn have "0 \<le> i" by linarith
    moreover from hi have "i < int (length ?ds)" by linarith
    ultimately have "nat i < length ?ds" by linarith
    then have "?ds ! nat i \<in> set ?ds" by (rule nth_mem)
    with c show "c \<in> snd ` set ?ds" by simp
  qed
  with no_target have c1: "target_color \<notin> set ?sel" by blast
  have c2: "int (length ?sel) \<le> max_neighbors" using mx by (simp add: min_def)
  have c3: "int (length (filter (\<lambda>c. c \<noteq> target_color) colors)) < min_distance \<longrightarrow> ?sel = []"
    using len_ds by simp
  from fn c1 c2 c3 show ?thesis by blast
qed

theorem find_neighbors_bounds_witness:
  "(0::int) \<le> 3 \<and> (0::int) \<le> 2 \<and>
   (\<exists>selected. find_neighbors (0, 0, 0) [(9, 9, 9), (0, 0, 0), (3, 3, 3), (6, 6, 6)] 3 2 = Inr selected
     \<and> (0, 0, 0) \<notin> set selected
     \<and> int (length selected) \<le> 3
     \<and> (int (length (filter (\<lambda>c. c \<noteq> (0, 0, 0))
            [(9, 9, 9), (0, 0, 0), (3, 3, 3), (6, 6, 6) :: color])) < 2
          \<longrightarrow> selected = []))"
proof -
  have a: "(0::int) \<le> 3" and b: "(0::int) \<le> 2" by simp_all
  from a b find_neighbors_bounds [OF a b, of "(0, 0, 0)" "[(9, 9, 9), (0, 0, 0), (3, 3, 3), (6, 6, 6)]"]
  show ?thesis by (intro conjI)
qed

text \<open>
  C4. With target \<open>(0, 0, 0)\<close> and palette \<open>[(1, 0, 0), (0, 0, 1)]\<close> both candidates are
  at distance 1 and the distance list is built in palette order, but the sorted list has
  \<open>(0, 0, 1)\<close> first: the pairs are compared as tuples, so a tie on the distance is
  decided by the colours.  Sorting by the distance alone, stably, gives another list.
\<close>

theorem sorted_distances_tie_counterexample:
  "distance_list (0, 0, 0) [(1, 0, 0), (0, 0, 1)] = Inr [(1, (1, 0, 0)), (1, (0, 0, 1))] \<and>
   sorted_distances (0, 0, 0) [(1, 0, 0), (0, 0, 1)] = Inr [(1, (0, 0, 1)), (1, (1, 0, 0))] \<and>
   find_neighbors (0, 0, 0) [(1, 0, 0), (0, 0, 1)] 2 0 = Inr [(0, 0, 1), (1, 0, 0)] \<and>
   sorted_distances (0, 0, 0) [(1, 0, 0), (0, 0, 1)]
     \<noteq> bind_err (distance_list (0, 0, 0) [(1, 0, 0), (0, 0, 1)]) (\<lambda>ds. Inr (sort_key fst ds))"
  by code_simp

lemma sorted_pairs_fst:
  fixes ds :: "('a::linorder \<times> 'b::linorder) list"
  assumes "sorted ds" "i < j" "j < length ds"
  shows "fst (ds ! i) \<le> fst (ds ! j)"
    and "fst (ds ! i) = fst (ds ! j) \<Longrightarrow> snd (ds ! i) \<le> snd (ds ! j)"
proof -
  from assms have le: "ds ! i \<le> ds ! j" by (simp add: sorted_nth_mono)
  then show "fst (ds ! i) \<le> fst (ds ! j)" by (auto simp: less_eq_prod_def)
  from le show "fst (ds ! i) = fst (ds ! j) \<Longrightarrow> snd (ds ! i) \<le> snd (ds ! j)"
    by (auto simp: less_eq_prod_def)
qed

text \<open>
  C4, amended. The candidate list holds one pair \<open>(distance, color)\<close> for each palette
  colour not equal to the target, the distance being \<open>rgb_distance\<close> to the target; it is
  sorted as a list of pairs, hence ascending by distance, and candidates at equal distance
  are in ascending order of their colour tuples.
\<close>

theorem sorted_distances_lexicographic:
  "\<exists>ds. sorted_distances target_color colors = Inr ds
     \<and> mset (map snd ds) = mset (filter (\<lambda>c. c \<noteq> target_color) colors)
     \<and> (\<forall>p\<in>set ds. rgb_distance target_color (snd p) = Inr (fst p))
     \<and> sorted ds
     \<and> (\<forall>i j. i < j \<and> j < length ds \<longrightarrow> fst (ds ! i) \<le> fst (ds ! j))
     \<and> (\<forall>i j. i < j \<and> j < length ds \<and> fst (ds ! i) = fst (ds ! j)
            \<longrightarrow> snd (ds ! i) \<le> snd (ds ! j))"
proof -
  from sorted_distances_ok [of target_color colors] obtain ds0 where
    sd: "sorted_distances target_color colors = Inr (sort ds0)" and
    cand: "map snd ds0 = filter (\<lambda>c. c \<noteq> target_color) colors" and
    dist: "\<forall>p\<in>set ds0. rgb_distance target_color (snd p) = Inr (fst p)" by blast
  have "mset (map snd (sort ds0)) = mset (map snd ds0)" by simp
  with cand have c1: "mset (map snd (sort ds0)) = mset (filter (\<lambda>c. c \<noteq> target_color) colors)"
    by simp
  have c2: "\<forall>p\<in>set (sort ds0). rgb_distance target_color (snd p) = Inr (fst p)"
    using dist by simp
  have c3: "sorted (sort ds0)" by simp
  have c4: "\<forall>i j. i < j \<and> j < length (sort ds0) \<longrightarrow> fst (sort ds0 ! i) \<le> fst (sort ds0 ! j)"
    using sorted_pairs_fst(1) [OF c3] by blast
  have c5: "\<forall>i j. i < j \<and> j < length (sort ds0) \<and> fst (sort ds0 ! i) = fst (sort ds0 ! j)
            \<longrightarrow> snd (sort ds0 ! i) \<le> snd (sort ds0 ! j)"
    using sorted_pairs_fst(2) [OF c3] by blast
  from sd c1 c2 c3 c4 c5 show ?thesis by blast
qed

theorem sorted_distances_lexicographic_witness:
  "\<exists>ds. sorted_distances (0, 0, 0) [(1, 0, 0), (0, 0, 0), (0, 0, 1), (0, 2, 0)] = Inr ds
     \<and> mset (map snd ds)
         = mset (filter (\<lambda>c. c \<noteq> (0, 0, 0)) [(1, 0, 0), (0, 0, 0), (0, 0, 1), (0, 2, 0)])
     \<and> (\<forall>p\<in>set ds. rgb_distance (0, 0, 0) (snd p) = Inr (fst p))
     \<and> sorted ds
     \<and> (\<forall>i j. i < j \<and> j < length ds \<longrightarrow> fst (ds ! i) \<le> fst (ds ! j))
     \<and> (\<forall>i j. i < j \<and> j < length ds \<and> fst (ds ! i) = fst (ds ! j)
            \<longrightarrow> snd (ds ! i) \<le> snd (ds ! j))"
  by (rule sorted_distances_lexicographic)


section \<open>Properties of \<open>create_gradient\<close>\<close>

text \<open>
  C6. For a list of one colour and \<open>width \<ge> 1\<close>, \<open>height \<ge> 1\<close>, \<open>create_gradient\<close>
  returns a buffer of \<open>width * height\<close> pixels, each equal to that colour.
\<close>

theorem create_gradient_single_color:
  assumes "length colors = 1" and "1 \<le> width" and "1 \<le> height"
  shows "\<exists>pixels. create_gradient colors width height vertical = Inr pixels
     \<and> int (length pixels) = width * height
     \<and> (\<forall>p\<in>set pixels. p = colors ! 0)"
proof -
  from assms(1) have "py_index colors 0 = Inr (colors ! 0)" by (simp add: py_index_def)
  with assms have "create_gradient colors width height vertical
      = Inr (replicate (nat (width * height)) (colors ! 0))"
    by (simp add: create_gradient_def bind_err_def)
  moreover from assms have "0 \<le> width * height" by simp
  ultimately show ?thesis by simp
qed

theorem create_gradient_single_color_witness:
  "length [(12, 34, 56) :: color] = 1 \<and> (1::int) \<le> 3 \<and> (1::int) \<le> 2 \<and>
   (\<exists>pixels. create_gradient [(12, 34, 56)] 3 2 True = Inr pixels
     \<and> int (length pixels) = 3 * 2
     \<and> (\<forall>p\<in>set pixels. p = [(12, 34, 56)] ! 0))"
proof -
  have a: "length [(12, 34, 56) :: color] = 1" and b: "(1::int) \<le> 3" and c: "(1::int) \<le> 2"
    by simp_all
  from a b c create_gradient_single_color [OF a b c, of True] show ?thesis by (intro conjI)
qed



lemma spec_truncate_py_int: "spec_truncate v = py_int v"
  by (auto simp: spec_truncate_def py_int_def ceiling_def)

lemma interpolate_spec: "interpolate c1 c2 lp = spec_channel c1 c2 lp"
  by (simp add: interpolate_def interpolate_raw_def spec_channel_def spec_truncate_py_int
      fadd_def fmul_def float_of_int_def)

lemma segment_size_pos:
  assumes "2 \<le> n"
  shows "0 < fl (1 / fl (of_int (n - 1)))"
proof -
  from assms have "0 < (of_int (n - 1) :: rat)" by simp
  then have "0 < fl (of_int (n - 1))" by (rule fl_pos)
  then have "0 < 1 / fl (of_int (n - 1))" by simp
  then show ?thesis by (rule fl_pos)
qed

lemma spec_pos_nonneg: "0 \<le> i \<Longrightarrow> 1 \<le> len \<Longrightarrow> 0 \<le> spec_pos i len"
  by (simp add: spec_pos_def fl_nonneg)

lemma axis_pos:
  "1 \<le> len \<Longrightarrow> (if len > 1 then int_truediv i (len - 1) else Inr 0) = Inr (spec_pos i len)"
  by (auto simp: int_truediv_def spec_pos_def)

lemma gradient_position_ok:
  fixes vertical :: bool
  assumes n: "2 \<le> length colors" and w: "1 \<le> width" and h: "1 \<le> height"
    and x: "0 \<le> x" and y: "0 \<le> y"
    and pos: "pos = (if vertical then spec_pos y height else spec_pos x width)"
    and segment_size: "segment_size = fl (1 / fl (of_int (int (length colors) - 1)))"
    and segment: "segment = min \<lfloor>fl (pos / segment_size)\<rfloor> (int (length colors) - 2)"
  shows "gradient_position colors width height vertical y x =
           Inr (segment, fl (fl (pos - fl (fl (of_int segment) * segment_size)) / segment_size))"
    and "0 \<le> segment" and "segment \<le> int (length colors) - 2"
proof -
  from n have n': "2 \<le> int (length colors)" by simp
  have s: "0 < segment_size" unfolding segment_size by (rule segment_size_pos [OF n'])
  have fn: "float_of_int (int (length colors) - 1) \<noteq> 0"
  proof -
    from n' have "0 < (of_int (int (length colors) - 1) :: rat)" by simp
    then have "0 < fl (of_int (int (length colors) - 1))" by (rule fl_pos)
    then show ?thesis by (simp add: float_of_int_def)
  qed
  have p: "0 \<le> pos" using x y w h by (simp add: pos spec_pos_nonneg)
  with s have q: "0 \<le> fl (pos / segment_size)" by (intro fl_nonneg) simp
  then have pq: "py_int (fl (pos / segment_size)) = \<lfloor>fl (pos / segment_size)\<rfloor>"
    by (simp add: py_int_def)
  from q show "0 \<le> segment" using n' by (simp add: segment)
  show "segment \<le> int (length colors) - 2" by (simp add: segment)
  have axis: "(if vertical
               then (if height > 1 then int_truediv y (height - 1) else Inr 0)
               else (if width > 1 then int_truediv x (width - 1) else Inr 0)) = Inr pos"
    using axis_pos [OF w, of x] axis_pos [OF h, of y] by (simp add: pos)
  have sz: "fdiv 1 (float_of_int (int (length colors) - 1)) = Inr segment_size"
    using fn by (simp add: fdiv_def segment_size float_of_int_def)
  have sn: "segment_size \<noteq> 0" using s by simp
  have fq: "fdiv pos segment_size = Inr (fl (pos / segment_size))"
    using sn by (simp add: fdiv_def)
  have seg: "min (py_int (fl (pos / segment_size))) (int (length colors) - 2) = segment"
    by (simp add: pq segment)
  show "gradient_position colors width height vertical y x =
           Inr (segment, fl (fl (pos - fl (fl (of_int segment) * segment_size)) / segment_size))"
    unfolding gradient_position_def axis sz
    by (simp add: bind_err_def fq Let_def seg sn fdiv_def fsub_def fmul_def float_of_int_def)
qed

lemma gradient_pixel_spec:
  assumes n: "2 \<le> length colors" and w: "1 \<le> width" and h: "1 \<le> height"
    and x: "0 \<le> x" and y: "0 \<le> y"
  shows "gradient_pixel colors width height vertical y x
           = Inr (spec_pixel colors width height vertical x y)"
proof -
  define pos where "pos = (if vertical then spec_pos y height else spec_pos x width)"
  define s where "s = fl (1 / fl (of_int (int (length colors) - 1)))"
  define seg where "seg = min \<lfloor>fl (pos / s)\<rfloor> (int (length colors) - 2)"
  define lp where "lp = fl (fl (pos - fl (fl (of_int seg) * s)) / s)"
  note gp = gradient_position_ok [OF n w h x y pos_def s_def seg_def]
  from gp(2,3) have i1: "py_index colors seg = Inr (colors ! nat seg)"
    by (simp add: py_index_def)
  from gp(2,3) have i2: "py_index colors (seg + 1) = Inr (colors ! nat (seg + 1))"
    by (simp add: py_index_def)
  have sp: "spec_pixel colors width height vertical x y =
      (spec_channel (fst (colors ! nat seg)) (fst (colors ! nat (seg + 1))) lp,
       spec_channel (fst (snd (colors ! nat seg))) (fst (snd (colors ! nat (seg + 1)))) lp,
       spec_channel (snd (snd (colors ! nat seg))) (snd (snd (colors ! nat (seg + 1)))) lp)"
    by (simp add: spec_pixel_def Let_def pos_def s_def seg_def lp_def)
  show ?thesis
    unfolding gradient_pixel_def gp(1) sp
    by (simp add: bind_err_def i1 i2 interpolate_spec lp_def)
qed

lemma row_loop_map:
  "\<forall>x\<in>set xs. gradient_pixel colors width height vertical y x = Inr (f x) \<Longrightarrow>
   row_loop colors width height vertical y xs pixels = Inr (pixels @ map f xs)"
  by (induction xs arbitrary: pixels) (simp_all add: bind_err_def)

lemma rows_loop_concat:
  "\<forall>y\<in>set ys. \<forall>x\<in>set (py_range 0 width).
      gradient_pixel colors width height vertical y x = Inr (f y x) \<Longrightarrow>
   rows_loop colors width height vertical ys pixels
     = Inr (pixels @ concat (map (\<lambda>y. map (f y) (py_range 0 width)) ys))"
proof (induction ys arbitrary: pixels)
  case Nil
  then show ?case by simp
next
  case (Cons y ys)
  then have row: "\<forall>x\<in>set (py_range 0 width).
      gradient_pixel colors width height vertical y x = Inr (f y x)" by simp
  from Cons.prems have rest: "\<forall>y\<in>set ys. \<forall>x\<in>set (py_range 0 width).
      gradient_pixel colors width height vertical y x = Inr (f y x)" by simp
  show ?case
    by (simp add: row_loop_map [OF row] bind_err_def Cons.IH [OF rest])
qed

lemma length_concat_rows:
  "\<forall>r\<in>set rows. length r = m \<Longrightarrow> length (concat rows) = length rows * m"
  by (induction rows) simp_all

lemma nth_concat_rows:
  "\<forall>r\<in>set rows. length r = m \<Longrightarrow> i < length rows \<Longrightarrow> j < m \<Longrightarrow>
   concat rows ! (i * m + j) = rows ! i ! j"
proof (induction rows arbitrary: i)
  case Nil
  then show ?case by simp
next
  case (Cons r rows)
  then have lr: "length r = m" by simp
  show ?case
  proof (cases i)
    case 0
    with Cons.prems lr show ?thesis by (simp add: nth_append)
  next
    case (Suc k)
    with Cons.prems have "k < length rows" by simp
    moreover from Cons.prems have "\<forall>r\<in>set rows. length r = m" by simp
    ultimately have "concat rows ! (k * m + j) = rows ! k ! j"
      using Cons.prems(3) by (intro Cons.IH)
    with Suc lr show ?thesis by (simp add: nth_append)
  qed
qed

lemma py_range_nth: "0 \<le> i \<Longrightarrow> i < n \<Longrightarrow> py_range 0 n ! nat i = i"
  by (simp add: py_range_def)

lemma py_range_length: "0 \<le> n \<Longrightarrow> length (py_range 0 n) = nat n"
  by (simp add: py_range_def)

lemma py_range_set: "set (py_range 0 n) = {i. 0 \<le> i \<and> i < n}"
  by (auto simp: py_range_def)

text \<open>
  C2. For two or more colours and \<open>width \<ge> 1\<close>, \<open>height \<ge> 1\<close>, \<open>create_gradient\<close>
  returns a buffer of \<open>width * height\<close> pixels in row-major order: the pixel of column
  \<open>x\<close> and row \<open>y\<close> is at index \<open>y * width + x\<close>, and it is the pixel the sentences of
  the specification describe, \<open>spec_pixel\<close>: the position along the axis (0 when the axis
  has length 1), the segment as the floor of \<open>pos / segment_size\<close> clamped to
  \<open>len(colors) - 2\<close>, the position within the segment, and each channel interpolated and
  truncated.  The quotient is never negative, so \<open>int\<close> is the floor, and the segment
  always indexes the list.
\<close>

theorem create_gradient_row_major:
  assumes n: "2 \<le> length colors" and w: "1 \<le> width" and h: "1 \<le> height"
  shows "\<exists>pixels. create_gradient colors width height vertical = Inr pixels
     \<and> int (length pixels) = width * height
     \<and> (\<forall>x y. 0 \<le> x \<and> x < width \<and> 0 \<le> y \<and> y < height \<longrightarrow>
           pixels ! nat (y * width + x) = spec_pixel colors width height vertical x y)"
proof -
  let ?f = "\<lambda>y x. spec_pixel colors width height vertical x y"
  let ?rows = "map (\<lambda>y. map (?f y) (py_range 0 width)) (py_range 0 height)"
  have px: "\<forall>y\<in>set (py_range 0 height). \<forall>x\<in>set (py_range 0 width).
      gradient_pixel colors width height vertical y x = Inr (?f y x)"
    using gradient_pixel_spec [OF n w h] by (simp add: py_range_set)
  from n w h have "create_gradient colors width height vertical
      = rows_loop colors width height vertical (py_range 0 height) []"
    by (simp add: create_gradient_def)
  also have "\<dots> = Inr ([] @ concat ?rows)" by (rule rows_loop_concat [OF px])
  finally have cg: "create_gradient colors width height vertical = Inr (concat ?rows)" by simp
  have rl: "\<forall>r\<in>set ?rows. length r = nat width"
    using w by (auto simp: py_range_length)
  have nrows: "length ?rows = nat height" using h by (simp add: py_range_length)
  have "length (concat ?rows) = length ?rows * nat width" by (rule length_concat_rows [OF rl])
  with nrows have "int (length (concat ?rows)) = int (nat height) * int (nat width)" by simp
  with w h have len: "int (length (concat ?rows)) = width * height" by (simp add: mult.commute)
  have nth: "concat ?rows ! nat (y * width + x) = ?f y x"
    if b: "0 \<le> x \<and> x < width \<and> 0 \<le> y \<and> y < height" for x y
  proof -
    from b have x0: "0 \<le> x" and xw: "x < width" and y0: "0 \<le> y" and yh: "y < height" by simp_all
    have idx: "nat (y * width + x) = nat y * nat width + nat x"
      using x0 y0 w by (simp add: nat_add_distrib nat_mult_distrib)
    have i: "nat y < length ?rows" using y0 yh h by (simp add: py_range_length)
    have j: "nat x < nat width" using x0 xw by simp
    have "concat ?rows ! (nat y * nat width + nat x) = ?rows ! nat y ! nat x"
      by (rule nth_concat_rows [OF rl i j])
    also have "?rows ! nat y = map (?f y) (py_range 0 width)"
      using i y0 yh by (simp add: py_range_length py_range_nth)
    also have "\<dots> ! nat x = ?f y x"
      using x0 xw j by (simp add: py_range_length py_range_nth)
    finally show ?thesis by (simp only: idx)
  qed
  show ?thesis
  proof (intro exI conjI allI impI)
    show "create_gradient colors width height vertical = Inr (concat ?rows)" by (rule cg)
    show "int (length (concat ?rows)) = width * height" by (rule len)
    fix x y assume "0 \<le> x \<and> x < width \<and> 0 \<le> y \<and> y < height"
    then show "concat ?rows ! nat (y * width + x) = spec_pixel colors width height vertical x y"
      by (rule nth)
  qed
qed

theorem create_gradient_row_major_witness:
  "2 \<le> length [(0, 0, 0), (255, 255, 255) :: color] \<and> (1::int) \<le> 1 \<and> (1::int) \<le> 2
   \<and> (\<exists>pixels. create_gradient [(0, 0, 0), (255, 255, 255)] 1 2 True = Inr pixels
         \<and> int (length pixels) = 1 * 2
         \<and> pixels ! nat (1 * 1 + 0) = (255, 255, 255))"
proof -
  let ?cs = "[(0, 0, 0), (255, 255, 255) :: color]"
  have a: "2 \<le> length ?cs" and b: "(1::int) \<le> 1" and c: "(1::int) \<le> 2" by simp_all
  have sp: "spec_pixel ?cs 1 2 True 0 1 = (255, 255, 255)" by code_simp
  from create_gradient_row_major [OF a b c, of True] obtain pixels where
    cg: "create_gradient ?cs 1 2 True = Inr pixels" and
    len: "int (length pixels) = 1 * 2" and
    px: "\<forall>x y. 0 \<le> x \<and> x < 1 \<and> 0 \<le> y \<and> y < 2 \<longrightarrow>
           pixels ! nat (y * 1 + x) = spec_pixel ?cs 1 2 True x y"
    by blast
  from px [rule_format, of 0 1] have "pixels ! nat (1 * 1 + 0) = spec_pixel ?cs 1 2 True 0 1"
    by simp
  with sp have "pixels ! nat (1 * 1 + 0) = (255, 255, 255)" by simp
  with cg len have "\<exists>pixels. create_gradient ?cs 1 2 True = Inr pixels
         \<and> int (length pixels) = 1 * 2
         \<and> pixels ! nat (1 * 1 + 0) = (255, 255, 255)" by blast
  with a b c show ?thesis by blast
qed

text \<open>
  The range of the channels.  With \<open>N = len(colors) - 1\<close> segments, \<open>N\<close> at most
  \<open>2^40\<close>, the roundings of \<open>segment_size\<close>, of the quotient, of the product and of
  the difference move \<open>local_pos\<close> out of \<open>[0, 1]\<close> by less than a thousandth, and
  the float handed to \<open>int\<close> stays strictly between -1 and 256.
\<close>

lemma local_pos_bounds:
  fixes pos S lp :: rat and N k :: int
  assumes N1: "1 \<le> N" and N2: "N \<le> 2 ^ 40"
    and p0: "0 \<le> pos" and p1: "pos \<le> 1 + 1 / 9007199254740992"
    and S: "S = fl (1 / fl (of_int N))"
    and k: "k = min \<lfloor>fl (pos / S)\<rfloor> (N - 1)"
    and lp: "lp = fl (fl (pos - fl (fl (of_int k) * S)) / S)"
  shows "- (1 / 1000) \<le> lp" and "lp \<le> 1 + 1 / 1000"
proof -
  define u :: rat where "u = 1 / 9007199254740992"
  define Nr :: rat where "Nr = of_int N"
  define q where "q = fl (pos / S)"
  define kS where "kS = of_int k * S"
  define NS where "NS = Nr * S"
  define qS where "qS = q * S"
  from N2 have N2': "N \<le> 1099511627776" by simp
  have Nr1: "1 \<le> Nr" using N1 by (simp add: Nr_def)
  have Nr2: "Nr \<le> 1099511627776"
  proof -
    from N2' have "(of_int N :: rat) \<le> of_int 1099511627776" by (simp only: of_int_le_iff)
    then show ?thesis by (simp add: Nr_def)
  qed
  have "\<bar>N\<bar> < 2 ^ 53" using N1 N2' by simp
  then have exN: "fl (of_int N) = Nr" unfolding Nr_def by (rule fl_of_int)
  have S': "S = fl (1 / Nr)" by (simp add: S exN)
  have Spos: "0 < S" unfolding S' using Nr1 by (intro fl_pos) simp
  have "\<bar>1 / Nr\<bar> \<le> 1 / Nr" using Nr1 by simp
  from fl_near [OF this]
  have s1: "1 / Nr - 1 / Nr / 9007199254740992 \<le> S"
    and s2: "S \<le> 1 / Nr + 1 / Nr / 9007199254740992" by (simp_all add: S')
  have NSlo: "1 - u \<le> NS"
  proof -
    have "Nr * (1 / Nr - 1 / Nr / 9007199254740992) \<le> Nr * S"
      using s1 Nr1 by (intro mult_left_mono) simp_all
    moreover have "Nr * (1 / Nr - 1 / Nr / 9007199254740992) = 1 - u"
      using Nr1 by (simp add: u_def field_simps)
    ultimately show ?thesis by (simp add: NS_def)
  qed
  have NShi: "NS \<le> 1 + u"
  proof -
    have "Nr * S \<le> Nr * (1 / Nr + 1 / Nr / 9007199254740992)"
      using s2 Nr1 by (intro mult_left_mono) simp_all
    moreover have "Nr * (1 / Nr + 1 / Nr / 9007199254740992) = 1 + u"
      using Nr1 by (simp add: u_def field_simps)
    ultimately show ?thesis by (simp add: NS_def)
  qed
  have Slo: "1 - u \<le> 1099511627776 * S"
  proof -
    have "Nr * S \<le> 1099511627776 * S" using Nr2 Spos by (intro mult_right_mono) simp_all
    with NSlo show ?thesis by (simp add: NS_def)
  qed
  have Shi: "S \<le> NS"
  proof -
    have "1 * S \<le> Nr * S" using Nr1 Spos by (intro mult_right_mono) simp_all
    then show ?thesis by (simp add: NS_def)
  qed
  have q0: "0 \<le> q" unfolding q_def using p0 Spos by (intro fl_nonneg) simp
  have qerr: "\<bar>qS - pos\<bar> \<le> pos * u"
  proof -
    have "\<bar>q - pos / S\<bar> \<le> \<bar>pos / S\<bar> / 2 ^ 53" unfolding q_def by (rule fl_err)
    also have "\<bar>pos / S\<bar> = pos / S" using p0 Spos by simp
    finally have a: "\<bar>q - pos / S\<bar> \<le> pos / S * u" by (simp add: u_def)
    have "qS - pos = (q - pos / S) * S" using Spos by (simp add: qS_def field_simps)
    then have "\<bar>qS - pos\<bar> = \<bar>q - pos / S\<bar> * S" using Spos by (simp add: abs_mult)
    also have "\<dots> \<le> pos / S * u * S" using a Spos by (intro mult_right_mono) simp_all
    also have "\<dots> = pos * u" using Spos by simp
    finally show ?thesis .
  qed
  have kq: "k \<le> \<lfloor>q\<rfloor>" by (simp add: k q_def)
  have kN: "k \<le> N - 1" by (simp add: k)
  from q0 have "0 \<le> \<lfloor>q\<rfloor>" by simp
  then have k0: "0 \<le> k" using N1 by (simp add: k q_def)
  from kq have kq': "of_int k \<le> q" by (simp add: le_floor_iff)
  have kS0: "0 \<le> kS" unfolding kS_def using k0 Spos by simp
  have kSq: "kS \<le> qS" unfolding kS_def qS_def using kq' Spos by (intro mult_right_mono) simp_all
  have kSN: "kS \<le> NS - S"
  proof -
    from kN have "(of_int k :: rat) \<le> of_int (N - 1)" by (simp only: of_int_le_iff)
    then have "of_int k * S \<le> of_int (N - 1) * S" using Spos by (intro mult_right_mono) simp_all
    also have "of_int (N - 1) * S = NS - S" by (simp add: NS_def Nr_def algebra_simps)
    finally show ?thesis by (simp add: kS_def)
  qed
  have up: "pos - kS \<le> S + 2 * u"
  proof (cases "\<lfloor>q\<rfloor> \<le> N - 1")
    case True
    then have "k = \<lfloor>q\<rfloor>" by (simp add: k q_def)
    moreover have "q < of_int \<lfloor>q\<rfloor> + 1" by linarith
    ultimately have "q < of_int k + 1" by simp
    then have "q * S < (of_int k + 1) * S" using Spos by (rule mult_strict_right_mono)
    then have "qS < kS + S" by (simp add: qS_def kS_def algebra_simps)
    with qerr p0 p1 show ?thesis unfolding u_def by linarith
  next
    case False
    then have "k = N - 1" by (simp add: k q_def)
    then have "kS = of_int (N - 1) * S" by (simp only: kS_def)
    also have "\<dots> = NS - S" by (simp add: NS_def Nr_def algebra_simps)
    finally have "kS = NS - S" .
    with NSlo p1 show ?thesis unfolding u_def by linarith
  qed
  have lo: "- (2 * u) \<le> pos - kS" using kSq qerr p0 p1 unfolding u_def by linarith
  define t where "t = fl kS"
  have "\<bar>k\<bar> < 2 ^ 53" using k0 kN N2' by simp
  then have exk: "fl (of_int k) = of_int k" by (rule fl_of_int)
  have kS2: "\<bar>kS\<bar> \<le> 2" using kS0 kSN NShi Spos unfolding u_def by linarith
  from fl_near [OF kS2] have t1: "kS - 2 * u \<le> t" and t2: "t \<le> kS + 2 * u"
    by (simp_all add: t_def u_def)
  define w where "w = pos - t"
  have w1: "- (4 * u) \<le> w" and w2: "w \<le> S + 4 * u" using lo up t1 t2 by (simp_all add: w_def)
  have w3: "\<bar>w\<bar> \<le> 2" using w1 w2 Shi NShi unfolding u_def by linarith
  define d where "d = fl w"
  from fl_near [OF w3] have "w - 2 * u \<le> d" and "d \<le> w + 2 * u"
    by (simp_all add: d_def u_def)
  with w1 w2 have d1: "- (6 * u) \<le> d" and d2: "d \<le> S + 6 * u" by linarith+
  have dS1: "- (1 / 1024) \<le> d / S"
  proof -
    from d1 Slo have "- (1 / 1024) * S \<le> d" unfolding u_def by linarith
    then show ?thesis using Spos by (simp add: pos_le_divide_eq)
  qed
  have dS2: "d / S \<le> 1 + 1 / 1024"
  proof -
    from d2 Slo have "d \<le> S + S / 1024" unfolding u_def by linarith
    then have "d \<le> (1 + 1 / 1024) * S" by (simp add: algebra_simps)
    then show ?thesis using Spos by (simp add: pos_divide_le_eq)
  qed
  from dS1 dS2 have dS3: "\<bar>d / S\<bar> \<le> 2" by linarith
  have lp': "lp = fl (d / S)" by (simp add: lp exk d_def w_def t_def kS_def)
  from fl_near [OF dS3] have "d / S - 2 / 9007199254740992 \<le> lp"
    and "lp \<le> d / S + 2 / 9007199254740992" by (simp_all add: lp')
  with dS1 dS2 show "- (1 / 1000) \<le> lp" and "lp \<le> 1 + 1 / 1000" by linarith+
qed

lemma interpolate_raw_range:
  assumes a1: "0 \<le> c1" and a2: "c1 \<le> 255" and b1: "0 \<le> c2" and b2: "c2 \<le> 255"
    and l0: "- (1 / 1000) \<le> lp" and l1: "lp \<le> 1 + 1 / 1000"
  shows "- 1 < interpolate_raw c1 c2 lp" and "interpolate_raw c1 c2 lp < 256"
proof -
  define A :: rat where "A = of_int c1"
  define B :: rat where "B = of_int (c2 - c1)"
  define P where "P = B * lp"
  have A0: "0 \<le> A" "A \<le> 255" using a1 a2 by (simp_all add: A_def)
  have AB: "0 \<le> A + B" "A + B \<le> 255" using b1 b2 by (simp_all add: A_def B_def)
  have "\<bar>c1\<bar> < 2 ^ 53" using a1 a2 by simp
  then have e1: "fl (of_int c1) = A" unfolding A_def by (rule fl_of_int)
  have "\<bar>c2 - c1\<bar> < 2 ^ 53" using a1 a2 b1 b2 by simp
  then have e2: "fl (of_int (c2 - c1)) = B" unfolding B_def by (rule fl_of_int)
  have raw: "interpolate_raw c1 c2 lp = fl (A + fl P)"
    by (simp only: interpolate_raw_def fadd_def fmul_def float_of_int_def e1 e2 P_def)
  have Pb: "- (51 / 200) \<le> A + P \<and> A + P \<le> 255 + 51 / 200 \<and> \<bar>P\<bar> \<le> 256"
  proof (cases "0 \<le> B")
    case True
    have "B * (- (1 / 1000)) \<le> B * lp" using l0 True by (rule mult_left_mono)
    moreover have "B * lp \<le> B * (1 + 1 / 1000)" using l1 True by (rule mult_left_mono)
    ultimately show ?thesis using True A0 AB unfolding P_def by (simp add: algebra_simps)
  next
    case False
    then have neg: "B \<le> 0" by simp
    have "B * lp \<le> B * (- (1 / 1000))" using l0 neg by (rule mult_left_mono_neg)
    moreover have "B * (1 + 1 / 1000) \<le> B * lp" using l1 neg by (rule mult_left_mono_neg)
    ultimately show ?thesis using neg A0 AB unfolding P_def by (simp add: algebra_simps)
  qed
  then have P3: "\<bar>P\<bar> \<le> 256" by simp
  from fl_near [OF P3] have f1: "P - 256 / 9007199254740992 \<le> fl P"
    and f2: "fl P \<le> P + 256 / 9007199254740992" by simp_all
  from Pb f1 f2 have v3: "\<bar>A + fl P\<bar> \<le> 256" by linarith
  from fl_near [OF v3] have "A + fl P - 256 / 9007199254740992 \<le> fl (A + fl P)"
    and "fl (A + fl P) \<le> A + fl P + 256 / 9007199254740992" by simp_all
  with Pb f1 f2 show "- 1 < interpolate_raw c1 c2 lp" and "interpolate_raw c1 c2 lp < 256"
    unfolding raw by linarith+
qed

lemma interpolate_range:
  assumes a1: "0 \<le> c1" and a2: "c1 \<le> 255" and b1: "0 \<le> c2" and b2: "c2 \<le> 255"
    and l0: "- (1 / 1000) \<le> lp" and l1: "lp \<le> 1 + 1 / 1000"
  shows "0 \<le> interpolate c1 c2 lp \<and> interpolate c1 c2 lp \<le> 255"
proof -
  note r = interpolate_raw_range [OF a1 a2 b1 b2 l0 l1]
  show ?thesis
  proof (cases "0 \<le> interpolate_raw c1 c2 lp")
    case True
    then have "interpolate c1 c2 lp = \<lfloor>interpolate_raw c1 c2 lp\<rfloor>"
      by (simp add: interpolate_def py_int_def)
    moreover from True have "0 \<le> \<lfloor>interpolate_raw c1 c2 lp\<rfloor>" by simp
    moreover from r(2) have "\<lfloor>interpolate_raw c1 c2 lp\<rfloor> < 256" by (simp add: floor_less_iff)
    ultimately show ?thesis by linarith
  next
    case False
    then have "interpolate c1 c2 lp = \<lceil>interpolate_raw c1 c2 lp\<rceil>"
      by (simp add: interpolate_def py_int_def)
    moreover from r(1) have "- 1 < \<lceil>interpolate_raw c1 c2 lp\<rceil>" by (simp add: less_ceiling_iff)
    moreover from False have "\<lceil>interpolate_raw c1 c2 lp\<rceil> \<le> 0" by (simp add: ceiling_le_iff)
    ultimately show ?thesis by linarith
  qed
qed

lemma spec_pos_le:
  assumes "0 \<le> i" and "i < len"
  shows "spec_pos i len \<le> 1 + 1 / 9007199254740992"
proof (cases "len = 1")
  case True
  then show ?thesis by (simp add: spec_pos_def)
next
  case False
  define r :: rat where "r = of_int i / of_int (len - 1)"
  from False assms have l: "0 < (of_int (len - 1) :: rat)" by simp
  from assms have "i \<le> len - 1" by simp
  then have "(of_int i :: rat) \<le> of_int (len - 1)" by (simp only: of_int_le_iff)
  with l have r1: "r \<le> 1" unfolding r_def by (simp only: pos_divide_le_eq mult_1)
  from assms l have r0: "0 \<le> r" unfolding r_def by simp
  from r0 r1 have "\<bar>r\<bar> \<le> 1" by linarith
  from fl_near(2) [OF this] r1 have "fl r \<le> 1 + 1 / 9007199254740992" by linarith
  with False show ?thesis by (simp only: spec_pos_def r_def if_False)
qed

lemma create_gradient_rows:
  assumes n: "2 \<le> length colors" and w: "1 \<le> width" and h: "1 \<le> height"
  shows "create_gradient colors width height vertical
           = Inr (concat (map (\<lambda>y. map (\<lambda>x. spec_pixel colors width height vertical x y)
                                     (py_range 0 width)) (py_range 0 height)))"
proof -
  let ?f = "\<lambda>y x. spec_pixel colors width height vertical x y"
  have px: "\<forall>y\<in>set (py_range 0 height). \<forall>x\<in>set (py_range 0 width).
      gradient_pixel colors width height vertical y x = Inr (?f y x)"
    using gradient_pixel_spec [OF n w h] by (simp add: py_range_set)
  from n w h have "create_gradient colors width height vertical
      = rows_loop colors width height vertical (py_range 0 height) []"
    by (simp add: create_gradient_def)
  also have "\<dots> = Inr ([] @ concat (map (\<lambda>y. map (?f y) (py_range 0 width)) (py_range 0 height)))"
    by (rule rows_loop_concat [OF px])
  finally show ?thesis by simp
qed

lemma spec_pixel_range:
  assumes n: "2 \<le> length colors" and m: "length colors \<le> 2 ^ 40"
    and rng: "\<forall>c\<in>set colors. 0 \<le> fst c \<and> fst c \<le> 255 \<and> 0 \<le> fst (snd c) \<and> fst (snd c) \<le> 255
                \<and> 0 \<le> snd (snd c) \<and> snd (snd c) \<le> 255"
    and w: "1 \<le> width" and h: "1 \<le> height"
    and x0: "0 \<le> x" and x1: "x < width" and y0: "0 \<le> y" and y1: "y < height"
    and p: "p = spec_pixel colors width height vertical x y"
  shows "0 \<le> fst p \<and> fst p \<le> 255 \<and> 0 \<le> fst (snd p) \<and> fst (snd p) \<le> 255
           \<and> 0 \<le> snd (snd p) \<and> snd (snd p) \<le> 255"
proof -
  define pos where "pos = (if vertical then spec_pos y height else spec_pos x width)"
  define s where "s = fl (1 / fl (of_int (int (length colors) - 1)))"
  define seg where "seg = min \<lfloor>fl (pos / s)\<rfloor> (int (length colors) - 2)"
  define lp where "lp = fl (fl (pos - fl (fl (of_int seg) * s)) / s)"
  define a where "a = colors ! nat seg"
  define b where "b = colors ! nat (seg + 1)"
  note gp = gradient_position_ok [OF n w h x0 y0 pos_def s_def seg_def]
  from gp(2,3) have "nat seg < length colors" and "nat (seg + 1) < length colors" by linarith+
  then have "a \<in> set colors" and "b \<in> set colors" by (simp_all add: a_def b_def)
  with rng have ra: "0 \<le> fst a" "fst a \<le> 255" "0 \<le> fst (snd a)" "fst (snd a) \<le> 255"
      "0 \<le> snd (snd a)" "snd (snd a) \<le> 255"
    and rb: "0 \<le> fst b" "fst b \<le> 255" "0 \<le> fst (snd b)" "fst (snd b) \<le> 255"
      "0 \<le> snd (snd b)" "snd (snd b) \<le> 255" by blast+
  have p0: "0 \<le> pos" using x0 y0 w h by (simp add: pos_def spec_pos_nonneg)
  have p1: "pos \<le> 1 + 1 / 9007199254740992"
    using spec_pos_le [OF x0 x1] spec_pos_le [OF y0 y1] by (simp add: pos_def)
  from n have N1: "1 \<le> int (length colors) - 1" by simp
  from m have "int (length colors) \<le> int (2 ^ 40)" by (simp only: of_nat_le_iff)
  then have N2: "int (length colors) - 1 \<le> 2 ^ 40" by simp
  have seg': "seg = min \<lfloor>fl (pos / s)\<rfloor> (int (length colors) - 1 - 1)" by (simp add: seg_def)
  note l = local_pos_bounds [OF N1 N2 p0 p1 s_def seg' lp_def]
  have sp: "p = (interpolate (fst a) (fst b) lp,
       interpolate (fst (snd a)) (fst (snd b)) lp,
       interpolate (snd (snd a)) (snd (snd b)) lp)"
    by (simp add: p spec_pixel_def Let_def pos_def s_def seg_def lp_def a_def b_def interpolate_spec)
  from interpolate_range [OF ra(1,2) rb(1,2) l] interpolate_range [OF ra(3,4) rb(3,4) l]
    interpolate_range [OF ra(5,6) rb(5,6) l]
  show ?thesis by (simp add: sp)
qed

lemma four_colors_last_row:
  shows "gradient_position [(0, 0, 0), (0, 0, 0), (0, 0, 0), (255, 255, 255)] 1 2 True 1 0
      = Inr (2, 4503599627370497 / 4503599627370496)"
  and "interpolate_raw 0 255 (4503599627370497 / 4503599627370496)
      = 4486007441326081 / 17592186044416"
proof -
  have n3: "fl 3 = 3" using fl_of_int [of 3] by simp
  have n2: "fl 2 = 2" using fl_of_int [of 2] by simp
  have n255: "fl 255 = 255" using fl_of_int [of 255] by simp
  have as: "fl (1 / 3) = 6004799503160661 / 18014398509481984"
  proof -
    have "fl (1 / 3) = of_int 6004799503160661 * pow2 (- 2 - 52)"
      by (rule fl_eval) (simp_all add: pow2_def)
    then show ?thesis by (simp add: pow2_def)
  qed
  have aq: "fl (18014398509481984 / 6004799503160661) = 3"
  proof -
    have "fl (18014398509481984 / 6004799503160661) = of_int 6755399441055744 * pow2 (1 - 52)"
      by (rule fl_eval) (simp_all add: pow2_def)
    then show ?thesis by (simp add: pow2_def)
  qed
  have at: "fl (6004799503160661 / 9007199254740992) = 6004799503160661 / 9007199254740992"
  proof -
    have "fl (6004799503160661 / 9007199254740992) = of_int 6004799503160661 * pow2 (- 1 - 52)"
      by (rule fl_eval) (simp_all add: pow2_def)
    then show ?thesis by (simp add: pow2_def)
  qed
  have ad: "fl (3002399751580331 / 9007199254740992) = 3002399751580331 / 9007199254740992"
  proof -
    have "fl (3002399751580331 / 9007199254740992) = of_int 6004799503160662 * pow2 (- 2 - 52)"
      by (rule fl_eval) (simp_all add: pow2_def)
    then show ?thesis by (simp add: pow2_def)
  qed
  have al: "fl (6004799503160662 / 6004799503160661) = 4503599627370497 / 4503599627370496"
  proof -
    have "fl (6004799503160662 / 6004799503160661) = of_int 4503599627370497 * pow2 (0 - 52)"
      by (rule fl_eval) (simp_all add: pow2_def)
    then show ?thesis by (simp add: pow2_def)
  qed
  have ap: "fl (1148417904979476735 / 4503599627370496) = 4486007441326081 / 17592186044416"
  proof -
    have "fl (1148417904979476735 / 4503599627370496) = of_int 8972014882652162 * pow2 (7 - 52)"
      by (rule fl_eval) (simp_all add: pow2_def)
    then show ?thesis by (simp add: pow2_def)
  qed
  have ar: "fl (4486007441326081 / 17592186044416) = 4486007441326081 / 17592186044416"
  proof -
    have "fl (4486007441326081 / 17592186044416) = of_int 8972014882652162 * pow2 (7 - 52)"
      by (rule fl_eval) (simp_all add: pow2_def)
    then show ?thesis by (simp add: pow2_def)
  qed
  show "gradient_position [(0, 0, 0), (0, 0, 0), (0, 0, 0), (255, 255, 255)] 1 2 True 1 0
      = Inr (2, 4503599627370497 / 4503599627370496)"
    by (simp add: gradient_position_def int_truediv_def fdiv_def fsub_def fmul_def
        float_of_int_def bind_err_def py_int_def fl_one n3 n2 as aq at ad al)
  show "interpolate_raw 0 255 (4503599627370497 / 4503599627370496)
      = 4486007441326081 / 17592186044416"
    by (simp add: interpolate_raw_def fadd_def fmul_def float_of_int_def fl_zero n255 ap ar)
qed

lemma long_list_gradient:
  assumes n: "n = 35113669052725"
  shows "create_gradient (replicate n (0, 0, 0) @ [(255, 255, 255)]) 1 2 True
           = Inr [(0, 0, 0), (256, 256, 256)]"
proof -
  define cs :: "color list" where "cs = replicate n (0, 0, 0) @ [(255, 255, 255)]"
  have "length cs = n + 1" by (simp add: cs_def)
  with n have len: "length cs = 35113669052726" by simp
  have blk: "cs ! i = (0, 0, 0)" if "i < 35113669052725" for i
    using that n by (simp add: cs_def nth_append)
  have "cs ! n = (255, 255, 255)" by (simp add: cs_def nth_append)
  with n have wht: "cs ! 35113669052725 = (255, 255, 255)" by simp
  have nn: "fl 35113669052725 = 35113669052725" using fl_of_int [of 35113669052725] by simp
  have nk: "fl 35113669052724 = 35113669052724" using fl_of_int [of 35113669052724] by simp
  have n255: "fl 255 = 255" using fl_of_int [of 255] by simp
  have bs: "fl (1 / 35113669052725) = 2256333919286507 / 79228162514264337593543950336"
  proof -
    have "fl (1 / 35113669052725) = of_int 4512667838573014 * pow2 (- 45 - 52)"
      by (rule fl_eval) (simp_all add: pow2_def)
    then show ?thesis by (simp add: pow2_def)
  qed
  have bq: "fl (79228162514264337593543950336 / 2256333919286507) = 8989099277497601 / 256"
  proof -
    have "fl (79228162514264337593543950336 / 2256333919286507) = of_int 8989099277497601 * pow2 (44 - 52)"
      by (rule fl_eval) (simp_all add: pow2_def)
    then show ?thesis by (simp add: pow2_def)
  qed
  have bt: "fl (19807040628565518131161198767 / 19807040628566084398385987584) = 4503599627370367 / 4503599627370496"
  proof -
    have "fl (19807040628565518131161198767 / 19807040628566084398385987584) = of_int 9007199254740734 * pow2 (- 1 - 52)"
      by (rule fl_eval) (simp_all add: pow2_def)
    then show ?thesis by (simp add: pow2_def)
  qed
  have bd: "fl (129 / 4503599627370496) = 129 / 4503599627370496"
  proof -
    have "fl (129 / 4503599627370496) = of_int 4538783999459328 * pow2 (- 45 - 52)"
      by (rule fl_eval) (simp_all add: pow2_def)
    then show ?thesis by (simp add: pow2_def)
  qed
  have bl: "fl (2269391999729664 / 2256333919286507) = 4529663307801525 / 4503599627370496"
  proof -
    have "fl (2269391999729664 / 2256333919286507) = of_int 4529663307801525 * pow2 (0 - 52)"
      by (rule fl_eval) (simp_all add: pow2_def)
    then show ?thesis by (simp add: pow2_def)
  qed
  have bp: "fl (1155064143489388875 / 4503599627370496) = 4511969310505425 / 17592186044416"
  proof -
    have "fl (1155064143489388875 / 4503599627370496) = of_int 4511969310505425 * pow2 (8 - 52)"
      by (rule fl_eval) (simp_all add: pow2_def)
    then show ?thesis by (simp add: pow2_def)
  qed
  have br: "fl (4511969310505425 / 17592186044416) = 4511969310505425 / 17592186044416"
  proof -
    have "fl (4511969310505425 / 17592186044416) = of_int 4511969310505425 * pow2 (8 - 52)"
      by (rule fl_eval) (simp_all add: pow2_def)
    then show ?thesis by (simp add: pow2_def)
  qed
  have fr: "\<lfloor>4511969310505425 / 17592186044416 :: rat\<rfloor> = 256"
    by (rule floor_unique) simp_all
  have r0: "py_range 0 1 = [0]" and r1: "py_range 0 2 = [0, 1]" by code_simp+
  have top: "gradient_pixel cs 1 2 True 0 0 = Inr (0, 0, 0)"
    by (simp add: nn bs gradient_pixel_def gradient_position_def int_truediv_def fdiv_def fsub_def
        fmul_def float_of_int_def bind_err_def py_int_def py_index_def len blk fl_zero
        interpolate_def interpolate_raw_def fadd_def)
  have bottom: "gradient_pixel cs 1 2 True 1 0 = Inr (256, 256, 256)"
    by (simp add: nn nk n255 bs bq bt bd bl bp br fr gradient_pixel_def gradient_position_def int_truediv_def fdiv_def fsub_def
        fmul_def float_of_int_def bind_err_def py_int_def py_index_def len blk wht fl_zero fl_one
        interpolate_def interpolate_raw_def fadd_def)
  have "create_gradient cs 1 2 True = Inr [(0, 0, 0), (256, 256, 256)]"
    by (simp add: create_gradient_def len r0 r1 top bottom bind_err_def)
  then show ?thesis by (simp only: cs_def)
qed

text \<open>
  C10. Two inputs.  With four colours and two rows, the last row has \<open>pos = 1\<close>;
  \<open>segment_size\<close> is the float nearest to a third, the segment is clamped to 2, and
  \<open>local_pos\<close> comes out as \<open>1 + 2^-52\<close>: between black and white the channel is
  \<open>255.00000000000006\<close> before truncation, above both endpoint channels.  The error of
  \<open>local_pos\<close> grows with the number of segments: after 35113669052725 black colours
  followed by one white, the last row has \<open>local_pos\<close> near 1.0058 and the pixel is
  \<open>(256, 256, 256)\<close>.
\<close>

theorem create_gradient_channel_counterexample:
  "gradient_position [(0, 0, 0), (0, 0, 0), (0, 0, 0), (255, 255, 255)] 1 2 True 1 0
      = Inr (2, 4503599627370497 / 4503599627370496)
   \<and> interpolate_raw 0 255 (4503599627370497 / 4503599627370496)
      = 4486007441326081 / 17592186044416
   \<and> (255 :: rat) < 4486007441326081 / 17592186044416
   \<and> set (replicate 35113669052725 (0, 0, 0) @ [(255, 255, 255)])
      = {(0, 0, 0), (255, 255, 255) :: color}
   \<and> create_gradient (replicate 35113669052725 (0, 0, 0) @ [(255, 255, 255)]) 1 2 True
      = Inr [(0, 0, 0), (256, 256, 256)]"
proof -
  note a = four_colors_last_row
  have b: "(255 :: rat) < 4486007441326081 / 17592186044416" by simp
  have c: "set (replicate 35113669052725 (0, 0, 0) @ [(255, 255, 255)])
      = {(0, 0, 0), (255, 255, 255) :: color}" by auto
  note d = long_list_gradient [OF refl]
  show ?thesis by (rule conjI [OF a(1) conjI [OF a(2) conjI [OF b conjI [OF c d]]]])
qed

text \<open>
  C10, amended. For a non-empty list of at most \<open>2^40\<close> colours whose channels all lie
  in \<open>[0, 255]\<close>, and a width and a height of at least 1, \<open>create_gradient\<close> returns a
  buffer, and every pixel of it has its three channels in \<open>[0, 255]\<close>.
\<close>

theorem create_gradient_channels_in_range:
  assumes ne: "colors \<noteq> []" and m: "length colors \<le> 2 ^ 40"
    and rng: "\<forall>c\<in>set colors. 0 \<le> fst c \<and> fst c \<le> 255 \<and> 0 \<le> fst (snd c) \<and> fst (snd c) \<le> 255
                \<and> 0 \<le> snd (snd c) \<and> snd (snd c) \<le> 255"
    and w: "1 \<le> width" and h: "1 \<le> height"
  shows "\<exists>pixels. create_gradient colors width height vertical = Inr pixels
     \<and> (\<forall>p\<in>set pixels. 0 \<le> fst p \<and> fst p \<le> 255 \<and> 0 \<le> fst (snd p) \<and> fst (snd p) \<le> 255
                \<and> 0 \<le> snd (snd p) \<and> snd (snd p) \<le> 255)"
proof (cases "length colors = 1")
  case True
  then have "py_index colors 0 = Inr (colors ! 0)" by (simp add: py_index_def)
  with True w h have cg: "create_gradient colors width height vertical
      = Inr (replicate (nat (width * height)) (colors ! 0))"
    by (simp add: create_gradient_def bind_err_def)
  from True have "colors ! 0 \<in> set colors" by (intro nth_mem) simp
  with rng have "\<forall>p\<in>set (replicate (nat (width * height)) (colors ! 0)).
      0 \<le> fst p \<and> fst p \<le> 255 \<and> 0 \<le> fst (snd p) \<and> fst (snd p) \<le> 255
                \<and> 0 \<le> snd (snd p) \<and> snd (snd p) \<le> 255"
    by (auto simp: set_replicate_conv_if)
  with cg show ?thesis by blast
next
  case False
  with ne have n: "2 \<le> length colors" by (cases colors) (simp_all add: Suc_le_eq)
  let ?rows = "map (\<lambda>y. map (\<lambda>x. spec_pixel colors width height vertical x y)
                                     (py_range 0 width)) (py_range 0 height)"
  have cg: "create_gradient colors width height vertical = Inr (concat ?rows)"
    by (rule create_gradient_rows [OF n w h])
  have "\<forall>p\<in>set (concat ?rows). 0 \<le> fst p \<and> fst p \<le> 255 \<and> 0 \<le> fst (snd p) \<and> fst (snd p) \<le> 255
                \<and> 0 \<le> snd (snd p) \<and> snd (snd p) \<le> 255"
  proof
    fix p assume "p \<in> set (concat ?rows)"
    then obtain x y where "x \<in> set (py_range 0 width)" and "y \<in> set (py_range 0 height)"
      and p: "p = spec_pixel colors width height vertical x y" by auto
    then have "0 \<le> x" "x < width" "0 \<le> y" "y < height" by (simp_all add: py_range_set)
    from spec_pixel_range [OF n m rng w h this p]
    show "0 \<le> fst p \<and> fst p \<le> 255 \<and> 0 \<le> fst (snd p) \<and> fst (snd p) \<le> 255
                \<and> 0 \<le> snd (snd p) \<and> snd (snd p) \<le> 255" .
  qed
  with cg show ?thesis by blast
qed

theorem create_gradient_channels_in_range_witness:
  "[(0, 0, 0), (255, 128, 7), (12, 255, 255) :: color] \<noteq> []
   \<and> length [(0, 0, 0), (255, 128, 7), (12, 255, 255) :: color] \<le> 2 ^ 40
   \<and> list_all (\<lambda>c. 0 \<le> fst c \<and> fst c \<le> 255 \<and> 0 \<le> fst (snd c) \<and> fst (snd c) \<le> 255
                \<and> 0 \<le> snd (snd c) \<and> snd (snd c) \<le> 255)
        [(0, 0, 0), (255, 128, 7), (12, 255, 255) :: color]
   \<and> (1::int) \<le> 162 \<and> (1::int) \<le> 1600
   \<and> (\<exists>pixels. create_gradient [(0, 0, 0), (255, 128, 7), (12, 255, 255)] 162 1600 True = Inr pixels
     \<and> (\<forall>p\<in>set pixels. 0 \<le> fst p \<and> fst p \<le> 255 \<and> 0 \<le> fst (snd p) \<and> fst (snd p) \<le> 255
                \<and> 0 \<le> snd (snd p) \<and> snd (snd p) \<le> 255))"
proof -
  let ?cs = "[(0, 0, 0), (255, 128, 7), (12, 255, 255) :: color]"
  have a: "?cs \<noteq> []" and b: "length ?cs \<le> 2 ^ 40"
    and c: "\<forall>c\<in>set ?cs. 0 \<le> fst c \<and> fst c \<le> 255 \<and> 0 \<le> fst (snd c) \<and> fst (snd c) \<le> 255
                \<and> 0 \<le> snd (snd c) \<and> snd (snd c) \<le> 255"
    and d: "(1::int) \<le> 162" and e: "(1::int) \<le> 1600" by simp_all
  have c': "list_all (\<lambda>c. 0 \<le> fst c \<and> fst c \<le> 255 \<and> 0 \<le> fst (snd c) \<and> fst (snd c) \<le> 255
                \<and> 0 \<le> snd (snd c) \<and> snd (snd c) \<le> 255) ?cs" by simp
  from a b c' d e create_gradient_channels_in_range [OF a b c d e, of True]
  show ?thesis by (intro conjI)
qed

section \<open>Properties of the palette loader\<close>

lemma hex_digit_props:
  assumes "hex_digit c = Some v"
  shows "\<not> is_int_space c" "c \<noteq> CHR ''-''" "c \<noteq> CHR ''+''" "c \<noteq> CHR ''x''" "c \<noteq> CHR ''X''"
    "c \<noteq> CHR ''_''" "0 \<le> v" "v \<le> 15"
  using assms by (auto simp: hex_digit_def is_int_space_def Let_def split: if_splits)

lemma int16_two_digits:
  assumes a: "hex_digit a = Some va" and b: "hex_digit b = Some vb"
  shows "int16 [a, b] = Inr (16 * va + vb)"
  using hex_digit_props(1-6) [OF a] hex_digit_props(1-6) [OF b] a b
  by (simp add: int16_def Let_def)

lemma hex_to_rgb_six_digits:
  assumes "hex_digit a = Some va" "hex_digit b = Some vb" "hex_digit c = Some vc"
    "hex_digit d = Some vd" "hex_digit e = Some ve" "hex_digit f = Some vf"
  shows "hex_to_rgb [a, b, c, d, e, f] = Inr (16 * va + vb, 16 * vc + vd, 16 * ve + vf)"
  using assms by (simp add: hex_to_rgb_def bind_err_def int16_two_digits)

lemma byte_range:
  assumes "hex_digit a = Some va" "hex_digit b = Some vb"
  shows "0 \<le> 16 * va + vb" "16 * va + vb \<le> 255"
  using hex_digit_props(7,8) [OF assms(1)] hex_digit_props(7,8) [OF assms(2)] by linarith+

lemma convert_colors_filter:
  "convert_colors (filter (\<lambda>h. length h = 6) hs) = convert_colors hs"
  by (induction hs) simp_all

lemma convert_colors_all_six:
  "\<forall>h\<in>set hs. length h = 6 \<Longrightarrow>
   (convert_colors hs = Inr cs) = (map hex_to_rgb hs = map Inr cs)"
proof (induction hs arbitrary: cs)
  case Nil
  then show ?case by auto
next
  case (Cons h hs)
  then have six: "length h = 6" and rest: "\<forall>h\<in>set hs. length h = 6" by simp_all
  show ?case
  proof (cases "hex_to_rgb h")
    case (Inl e)
    with six show ?thesis by (cases cs) (auto simp: bind_err_def)
  next
    case (Inr c)
    show ?thesis
    proof (cases "convert_colors hs")
      case (Inl e)
      with Cons.IH [OF rest] have "\<And>cs'. map hex_to_rgb hs \<noteq> map Inr cs'" by simp
      with Inl Inr six show ?thesis by (cases cs) (auto simp: bind_err_def)
    next
      case r: (Inr cs')
      with Cons.IH [OF rest] have eq: "\<And>cs''. (cs' = cs'') = (map hex_to_rgb hs = map Inr cs'')"
        by simp
      with Inr r six show ?thesis by (cases cs) (auto simp: bind_err_def)
    qed
  qed
qed

lemma strip_empty_length: "strip l = [] \<Longrightarrow> length (strip l) \<noteq> 6"
  by simp

lemma load_palette_filter:
  "load_palette lines = convert_colors (map strip (filter (\<lambda>l. length (strip l) = 6) lines))"
proof -
  have "convert_colors (map strip (filter (\<lambda>l. length (strip l) = 6) lines))
      = convert_colors (filter (\<lambda>h. length h = 6) (map strip lines))"
    by (simp add: filter_map comp_def)
  also have "\<dots> = convert_colors (map strip lines)" by (rule convert_colors_filter)
  also have "\<dots> = convert_colors (filter (\<lambda>h. length h = 6) (map strip lines))"
    by (rule convert_colors_filter [symmetric])
  also have "\<dots> = convert_colors (filter (\<lambda>h. length h = 6) (filter (\<lambda>h. h \<noteq> []) (map strip lines)))"
    by (simp add: conj_commute) (metis (mono_tags, lifting) filter_cong length_0_conv zero_neq_numeral)
  also have "\<dots> = convert_colors (filter (\<lambda>h. h \<noteq> []) (map strip lines))"
    by (rule convert_colors_filter)
  also have "\<dots> = load_palette lines"
    by (simp add: load_palette_def read_hex_colors_def filter_map comp_def)
  finally show ?thesis by simp
qed


text \<open>
  C7. Not every accepted line is read as three two-digit hexadecimal bytes.  The line
  \<open>-f-f-f\<close> has six characters after stripping, so it is accepted; each of its slices is
  \<open>-f\<close>, which \<open>int(s, 16)\<close> reads as a sign and one digit, and the colour is
  \<open>(-15, -15, -15)\<close>: no exception, and no byte.
\<close>

theorem accepted_line_not_bytes_counterexample:
  "length (strip ''-f-f-f'') = 6
   \<and> hex_to_rgb ''-f-f-f'' = Inr (- 15, - 15, - 15)
   \<and> load_palette [''-f-f-f''] = Inr [(- 15, - 15, - 15)]
   \<and> \<not> (0 \<le> fst (- 15 :: int, - 15 :: int, - 15 :: int))"
  by code_simp

text \<open>
  C7, amended. The loader returns a palette exactly when the lines whose stripped form
  has six characters, taken in order, all convert, and the palette is then the list of
  their colours: blank lines and lines of any other stripped length contribute nothing.
  An accepted line whose six characters are all hexadecimal digits converts to its three
  two-digit bytes, each in \<open>[0, 255]\<close>; in particular \<open>ff0000\<close> is \<open>(255, 0, 0)\<close> and
  \<open>00ff00\<close> is \<open>(0, 255, 0)\<close>.
\<close>

theorem palette_loader_six_chars:
  "(load_palette lines = Inr cs \<longleftrightarrow>
      map hex_to_rgb (map strip (filter (\<lambda>l. length (strip l) = 6) lines)) = map Inr cs)
   \<and> (hex_digit a = Some va \<and> hex_digit b = Some vb \<and> hex_digit c = Some vc
        \<and> hex_digit d = Some vd \<and> hex_digit e = Some ve \<and> hex_digit f = Some vf
      \<longrightarrow> hex_to_rgb [a, b, c, d, e, f] = Inr (16 * va + vb, 16 * vc + vd, 16 * ve + vf)
          \<and> 0 \<le> 16 * va + vb \<and> 16 * va + vb \<le> 255
          \<and> 0 \<le> 16 * vc + vd \<and> 16 * vc + vd \<le> 255
          \<and> 0 \<le> 16 * ve + vf \<and> 16 * ve + vf \<le> 255)
   \<and> hex_to_rgb ''ff0000'' = Inr (255, 0, 0)
   \<and> hex_to_rgb ''00ff00'' = Inr (0, 255, 0)"
proof (intro conjI impI)
  have "\<forall>h\<in>set (map strip (filter (\<lambda>l. length (strip l) = 6) lines)). length h = 6"
    by simp
  from convert_colors_all_six [OF this]
  show "load_palette lines = Inr cs \<longleftrightarrow>
      map hex_to_rgb (map strip (filter (\<lambda>l. length (strip l) = 6) lines)) = map Inr cs"
    by (simp only: load_palette_filter)
next
  assume h: "hex_digit a = Some va \<and> hex_digit b = Some vb \<and> hex_digit c = Some vc
        \<and> hex_digit d = Some vd \<and> hex_digit e = Some ve \<and> hex_digit f = Some vf"
  then show "hex_to_rgb [a, b, c, d, e, f] = Inr (16 * va + vb, 16 * vc + vd, 16 * ve + vf)"
    by (simp add: hex_to_rgb_six_digits)
  from h have ha: "hex_digit a = Some va" and hb: "hex_digit b = Some vb"
    and hc: "hex_digit c = Some vc" and hd: "hex_digit d = Some vd"
    and he: "hex_digit e = Some ve" and hf: "hex_digit f = Some vf" by simp_all
  show "0 \<le> 16 * va + vb" "16 * va + vb \<le> 255" by (rule byte_range [OF ha hb])+
  show "0 \<le> 16 * vc + vd" "16 * vc + vd \<le> 255" by (rule byte_range [OF hc hd])+
  show "0 \<le> 16 * ve + vf" "16 * ve + vf \<le> 255" by (rule byte_range [OF he hf])+
next
  show "hex_to_rgb ''ff0000'' = Inr (255, 0, 0)" by code_simp
  show "hex_to_rgb ''00ff00'' = Inr (0, 255, 0)" by code_simp
qed

theorem palette_loader_six_chars_witness:
  "load_palette ['' ff0000 '', [], ''abc'', ''1234567'', ''00FF7f'']
       = Inr [(255, 0, 0), (0, 255, 127)]
   \<and> map strip (filter (\<lambda>l. length (strip l) = 6)
           ['' ff0000 '', [], ''abc'', ''1234567'', ''00FF7f''])
       = [''ff0000'', ''00FF7f'']
   \<and> hex_digit CHR ''0'' = Some 0 \<and> hex_digit CHR ''F'' = Some 15
   \<and> hex_digit CHR ''7'' = Some 7 \<and> hex_digit CHR ''f'' = Some 15
   \<and> hex_to_rgb ''00FF7f'' = Inr (16 * 0 + 0, 16 * 15 + 15, 16 * 7 + 15)"
proof -
  have m: "map hex_to_rgb (map strip (filter (\<lambda>l. length (strip l) = 6)
        ['' ff0000 '', [], ''abc'', ''1234567'', ''00FF7f'']))
      = map Inr [(255, 0, 0), (0, 255, 127)]"
    by code_simp
  have s: "map strip (filter (\<lambda>l. length (strip l) = 6)
        ['' ff0000 '', [], ''abc'', ''1234567'', ''00FF7f''])
       = [''ff0000'', ''00FF7f'']"
    by code_simp
  have d: "hex_digit CHR ''0'' = Some 0" "hex_digit CHR ''F'' = Some 15"
    "hex_digit CHR ''7'' = Some 7" "hex_digit CHR ''f'' = Some 15"
    by code_simp+
  note t = palette_loader_six_chars [of "['' ff0000 '', [], ''abc'', ''1234567'', ''00FF7f'']"
      "[(255, 0, 0), (0, 255, 127)]" "CHR ''0''" 0 "CHR ''0''" 0 "CHR ''F''" 15 "CHR ''F''" 15
      "CHR ''7''" 7 "CHR ''f''" 15]
  from t m have l: "load_palette ['' ff0000 '', [], ''abc'', ''1234567'', ''00FF7f'']
      = Inr [(255, 0, 0), (0, 255, 127)]"
    by blast
  from t d have "hex_to_rgb ''00FF7f'' = Inr (16 * 0 + 0, 16 * 15 + 15, 16 * 7 + 15)"
    by blast
  with l s d show ?thesis by blast
qed

section \<open>Properties of \<open>process_hex_file\<close> and \<open>main\<close>\<close>

lemma process_files_append:
  "snd (process_files xs) = None \<Longrightarrow>
   process_files (xs @ ys) = (fst (process_files xs) @ fst (process_files ys), snd (process_files ys))"
proof (induction xs)
  case Nil
  then show ?case by simp
next
  case (Cons f xs)
  obtain p ls where f: "f = (p, ls)" by (cases f)
  obtain evs r where ph: "process_hex_file p ls = (evs, r)" by (cases "process_hex_file p ls")
  show ?case
  proof (cases r)
    case None
    with Cons.prems f ph have "snd (process_files xs) = None"
      by (simp split: prod.splits)
    from Cons.IH [OF this] f ph None show ?thesis by (simp split: prod.splits)
  next
    case (Some e)
    with Cons.prems f ph show ?thesis by simp
  qed
qed

text \<open>
  C8. A file with no valid colour prints the diagnostic and nothing else: no image is
  saved and no exception leaves \<open>process_hex_file\<close>.  When the files before it ran
  without an exception, \<open>main\<close> goes on to the files after it: its events are those of
  the earlier files, the two lines of this file, and whatever the later files produce.
\<close>

theorem zero_colors_file_skipped:
  assumes "load_palette lines = Inr []" and "snd (process_files before) = None"
  shows "process_hex_file hex_file lines
           = ([Print (''No valid colors found in '' @ hex_file)], None)
     \<and> main (before @ (hex_file, lines) # rest)
           = (fst (process_files before)
                @ Print (''Processing '' @ hex_file @ ''...'')
                # Print (''No valid colors found in '' @ hex_file)
                # fst (process_files rest),
              snd (process_files rest))"
proof -
  from assms(1) have p: "process_hex_file hex_file lines
           = ([Print (''No valid colors found in '' @ hex_file)], None)"
    by (simp add: process_hex_file_def)
  then have "process_files ((hex_file, lines) # rest)
      = (Print (''Processing '' @ hex_file @ ''...'')
           # Print (''No valid colors found in '' @ hex_file) # fst (process_files rest),
         snd (process_files rest))"
    by (simp split: prod.splits)
  with process_files_append [OF assms(2), of "(hex_file, lines) # rest"] p show ?thesis
    by (simp add: main_def)
qed

theorem zero_colors_file_skipped_witness:
  "load_palette [[], ''abc'', ''1234567''] = Inr []
   \<and> snd (process_files [(''a.hex'', [''12''])]) = None
   \<and> process_hex_file ''b.hex'' [[], ''abc'', ''1234567'']
        = ([Print ''No valid colors found in b.hex''], None)
   \<and> main ([(''a.hex'', [''12''])] @ (''b.hex'', [[], ''abc'', ''1234567'']) # [(''c.hex'', [])])
        = ([Print ''Processing a.hex...'', Print ''No valid colors found in a.hex'',
            Print ''Processing b.hex...'', Print ''No valid colors found in b.hex'',
            Print ''Processing c.hex...'', Print ''No valid colors found in c.hex''], None)"
proof -
  have a: "load_palette [[], ''abc'', ''1234567''] = Inr []" by code_simp
  have b: "snd (process_files [(''a.hex'', [''12''])]) = None" by code_simp
  have c: "fst (process_files [(''a.hex'', [''12''])])
      = [Print ''Processing a.hex...'', Print ''No valid colors found in a.hex'']" by code_simp
  have d: "process_files [(''c.hex'', [])]
      = ([Print ''Processing c.hex...'', Print ''No valid colors found in c.hex''], None)"
    by code_simp
  from zero_colors_file_skipped [OF a b, of "''b.hex''" "[(''c.hex'', [])]"] a b c d
  show ?thesis by simp
qed

text \<open>
  C9. A file with the line \<open>zzzzzz\<close>, which has six characters after stripping and is
  not hexadecimal: \<open>hex_to_rgb\<close> raises \<open>ValueError\<close>, \<open>process_hex_file\<close> lets it
  through without any output, although the line before it was valid, and \<open>main\<close> stops
  after printing the name of that file, whatever files follow.
\<close>

theorem invalid_hex_line_aborts_run:
  "length (strip ''zzzzzz'') = 6
   \<and> hex_to_rgb ''zzzzzz'' = Inl ValueError
   \<and> process_hex_file hex_file [''ff0000'', ''zzzzzz'', ''00ff00''] = ([], Some ValueError)
   \<and> main ((hex_file, [''ff0000'', ''zzzzzz'', ''00ff00'']) # rest)
        = ([Print (''Processing '' @ hex_file @ ''...'')], Some ValueError)"
proof -
  have a: "length (strip ''zzzzzz'') = 6" by code_simp
  have b: "hex_to_rgb ''zzzzzz'' = Inl ValueError" by code_simp
  have "load_palette [''ff0000'', ''zzzzzz'', ''00ff00''] = Inl ValueError" by code_simp
  then have c: "process_hex_file hex_file [''ff0000'', ''zzzzzz'', ''00ff00''] = ([], Some ValueError)"
    by (simp add: process_hex_file_def)
  then have "main ((hex_file, [''ff0000'', ''zzzzzz'', ''00ff00'']) # rest)
        = ([Print (''Processing '' @ hex_file @ ''...'')], Some ValueError)"
    by (simp add: main_def)
  with a b c show ?thesis by blast
qed


end
